theory Spec2Isabelle
  imports Main "HOL-Library.Sublist"
begin

section \<open>JavaScript values, the object store and errors\<close>

text \<open>
  The parser works on untyped trees decoded from JSON or YAML text.  A decoded tree is a
  \<open>json\<close> value; \<open>JUndef\<close> is JavaScript's \<open>undefined\<close>, which no decoder produces but
  which a property read of a missing key yields.  Numbers are modelled by integers (the
  code only tests them for truthiness and prints them).  An object is the list of its own
  enumerable properties in enumeration order.

  \<open>resolveRefs\<close> assigns to the fields of objects while it walks them and hands out
  references to nodes it has looked up, so objects and arrays live in a store: a \<open>val\<close> is
  a primitive or the address of a \<open>cell\<close>.
\<close>

datatype json =
  JUndef | JNull | JBool bool | JNum int | JStr string
  | JArr "json list" | JObj "(string \<times> json) list"

datatype val = VUndef | VNull | VBool bool | VNum int | VStr string | VRef nat

datatype cell = Obj "(string \<times> val) list" | Arr "val list"

type_synonym heap = "cell list"

text \<open>
  \<open>Throw\<close> is a raised exception.  \<open>Unmodelled\<close> marks an input on which the source
  leaves the value domain of this embedding (it would read a built-in method or coerce an
  array to a string); nothing is claimed about such inputs.  \<open>OutOfFuel\<close> is returned only
  by the fuel-bounded recursion of \<open>resolveRef\<close>.
\<close>

datatype error =
  TypeError | SyntaxError | ValidationError | ContentParsingError | NetworkError | Unmodelled

datatype 'a result = Ok 'a | Throw error | OutOfFuel

fun rbind :: "'a result \<Rightarrow> ('a \<Rightarrow> 'b result) \<Rightarrow> 'b result" where
  "rbind (Ok x) f = f x"
| "rbind (Throw e) f = Throw e"
| "rbind OutOfFuel f = OutOfFuel"

fun foldM :: "('s \<Rightarrow> 'a \<Rightarrow> 's result) \<Rightarrow> 's \<Rightarrow> 'a list \<Rightarrow> 's result" where
  "foldM f s [] = Ok s"
| "foldM f s (x # xs) = rbind (f s x) (\<lambda>s'. foldM f s' xs)"

subsection \<open>Strings\<close>

definition digit_char :: "nat \<Rightarrow> char" where
  "digit_char d = ''0123456789'' ! d"

fun show_nat :: "nat \<Rightarrow> string" where
  "show_nat n = (if n < 10 then [digit_char n] else show_nat (n div 10) @ [digit_char (n mod 10)])"

declare show_nat.simps [simp del]

definition show_int :: "int \<Rightarrow> string" where
  "show_int i = (if i < 0 then CHR ''-'' # show_nat (nat (- i)) else show_nat (nat i))"

text \<open>
  The string conversion of a number.  A safe integer (of magnitude at most
  \<open>9007199254740991\<close>) prints as its decimal digits.  A larger number prints rounded to the
  digits that identify it, and in exponent form from \<open>1e21\<close> on; this is not modelled.
\<close>

definition num_string :: "int \<Rightarrow> string result" where
  "num_string i =
     (if - 9007199254740991 \<le> i \<and> i \<le> 9007199254740991 then Ok (show_int i) else Throw Unmodelled)"

text \<open>\<open>s.includes(pat)\<close> on strings: \<open>pat\<close> occurs as a contiguous substring.\<close>

fun str_includes :: "string \<Rightarrow> string \<Rightarrow> bool" where
  "str_includes [] pat = (pat = [])"
| "str_includes (c # cs) pat = (prefix pat (c # cs) \<or> str_includes cs pat)"

text \<open>\<open>s.split(c)\<close> for a one-character separator: never empty, \<open>''''.split\<close> is \<open>['''']\<close>.\<close>

fun split_on :: "char \<Rightarrow> string \<Rightarrow> string list" where
  "split_on c [] = [[]]"
| "split_on c (x # xs) =
     (if x = c then [] # split_on c xs
      else (case split_on c xs of [] \<Rightarrow> [[x]] | y # ys \<Rightarrow> (x # y) # ys))"

text \<open>\<open>s.replace(pat, '''')\<close> with a non-empty string pattern: the first occurrence only.\<close>

fun remove_first :: "string \<Rightarrow> string \<Rightarrow> string" where
  "remove_first pat [] = []"
| "remove_first pat (c # cs) =
     (if prefix pat (c # cs) then drop (length pat) (c # cs) else c # remove_first pat cs)"

subsection \<open>Reading values\<close>

fun truthy :: "val \<Rightarrow> bool" where
  "truthy VUndef = False"
| "truthy VNull = False"
| "truthy (VBool b) = b"
| "truthy (VNum n) = (n \<noteq> 0)"
| "truthy (VStr s) = (s \<noteq> [])"
| "truthy (VRef a) = True"

definition cell_at :: "heap \<Rightarrow> nat \<Rightarrow> cell option" where
  "cell_at h a = (if a < length h then Some (h ! a) else None)"

definition indexed :: "'a list \<Rightarrow> (string \<times> 'a) list" where
  "indexed xs = zip (map show_nat [0..<length xs]) xs"

definition chars_of :: "string \<Rightarrow> val list" where
  "chars_of s = map (\<lambda>c. VStr [c]) s"

text \<open>
  The property names of \<open>Object.prototype\<close>: a read of one of them on an object that has
  no own property of that name yields a built-in function (or the prototype itself).
\<close>

definition object_proto_names :: "string list" where
  "object_proto_names =
     [''constructor'', ''__defineGetter__'', ''__defineSetter__'', ''hasOwnProperty'',
      ''__lookupGetter__'', ''__lookupSetter__'', ''isPrototypeOf'', ''propertyIsEnumerable'',
      ''toString'', ''valueOf'', ''__proto__'', ''toLocaleString'']"

text \<open>
  \<open>field h v k\<close> is \<open>v.k\<close> for the names the source reads with dot syntax (\<open>tags\<close>,
  \<open>operationId\<close>, \<open>in\<close>, \<open>$ref\<close>, ...): none of them is defined by a built-in prototype, so
  the read yields the own property of an object and \<open>undefined\<close> on an array or a
  primitive; on \<open>null\<close> and \<open>undefined\<close> it raises.
\<close>

definition field :: "heap \<Rightarrow> val \<Rightarrow> string \<Rightarrow> val result" where
  "field h v k =
     (case v of
        VUndef \<Rightarrow> Throw TypeError
      | VNull \<Rightarrow> Throw TypeError
      | VRef a \<Rightarrow>
          (case cell_at h a of
             None \<Rightarrow> Throw Unmodelled
           | Some (Obj fs) \<Rightarrow> (case map_of fs k of Some x \<Rightarrow> Ok x | None \<Rightarrow> Ok VUndef)
           | Some (Arr xs) \<Rightarrow> Ok VUndef)
      | _ \<Rightarrow> Ok VUndef)"

definition is_index :: "string \<Rightarrow> bool" where
  "is_index k = (k \<noteq> [] \<and> list_all (\<lambda>c. c \<in> set ''0123456789'') k \<and> (k = ''0'' \<or> hd k \<noteq> CHR ''0''))"

text \<open>
  \<open>getp h v k\<close> is the computed read \<open>v[k]\<close> with an arbitrary key: own properties of
  objects, elements and \<open>length\<close> of arrays and strings.  A key that would reach a
  built-in prototype member is \<open>Unmodelled\<close>.
\<close>

definition getp :: "heap \<Rightarrow> val \<Rightarrow> string \<Rightarrow> val result" where
  "getp h v k =
     (case v of
        VUndef \<Rightarrow> Throw TypeError
      | VNull \<Rightarrow> Throw TypeError
      | VRef a \<Rightarrow>
          (case cell_at h a of
             None \<Rightarrow> Throw Unmodelled
           | Some (Obj fs) \<Rightarrow>
               (case map_of fs k of
                  Some x \<Rightarrow> Ok x
                | None \<Rightarrow> if k \<in> set object_proto_names then Throw Unmodelled else Ok VUndef)
           | Some (Arr xs) \<Rightarrow>
               (if is_index k then (case map_of (indexed xs) k of Some x \<Rightarrow> Ok x | None \<Rightarrow> Ok VUndef)
                else if k = ''length'' then Ok (VNum (int (length xs)))
                else Throw Unmodelled))
      | VStr s \<Rightarrow>
          (if is_index k then (case map_of (indexed (chars_of s)) k of Some x \<Rightarrow> Ok x | None \<Rightarrow> Ok VUndef)
           else if k = ''length'' then Ok (VNum (int (length s)))
           else Throw Unmodelled)
      | _ \<Rightarrow> if is_index k then Ok VUndef else Throw Unmodelled)"

text \<open>\<open>Object.entries(v)\<close>.\<close>

definition entries :: "heap \<Rightarrow> val \<Rightarrow> (string \<times> val) list result" where
  "entries h v =
     (case v of
        VUndef \<Rightarrow> Throw TypeError
      | VNull \<Rightarrow> Throw TypeError
      | VRef a \<Rightarrow>
          (case cell_at h a of
             None \<Rightarrow> Throw Unmodelled
           | Some (Obj fs) \<Rightarrow> Ok fs
           | Some (Arr xs) \<Rightarrow> Ok (indexed xs))
      | VStr s \<Rightarrow> Ok (indexed (chars_of s))
      | _ \<Rightarrow> Ok [])"

text \<open>
  The conversion of a value to a property key (\<open>controllers[tag]\<close>).  An object without an
  own \<open>toString\<close> prints as \<open>[object Object]\<close>; with one (a JSON value, not callable) the
  conversion raises.  Joining an array is not modelled.
\<close>

definition to_key :: "heap \<Rightarrow> val \<Rightarrow> string result" where
  "to_key h v =
     (case v of
        VUndef \<Rightarrow> Ok ''undefined''
      | VNull \<Rightarrow> Ok ''null''
      | VBool b \<Rightarrow> Ok (if b then ''true'' else ''false'')
      | VNum n \<Rightarrow> num_string n
      | VStr s \<Rightarrow> Ok s
      | VRef a \<Rightarrow>
          (case cell_at h a of
             Some (Obj fs) \<Rightarrow>
               if map_of fs ''toString'' = None then Ok ''[object Object]'' else Throw TypeError
           | _ \<Rightarrow> Throw Unmodelled))"

subsection \<open>Building objects in the store\<close>

text \<open>
  A decoder (\<open>JSON.parse\<close>, the YAML parser) and an object literal build fresh objects:
  \<open>alloc t h\<close> appends the cells of the tree \<open>t\<close> to the store and returns its value.
\<close>

fun alloc :: "json \<Rightarrow> heap \<Rightarrow> val \<times> heap"
  and alloc_list :: "json list \<Rightarrow> heap \<Rightarrow> val list \<times> heap"
  and alloc_fields :: "(string \<times> json) list \<Rightarrow> heap \<Rightarrow> (string \<times> val) list \<times> heap" where
  "alloc JUndef h = (VUndef, h)"
| "alloc JNull h = (VNull, h)"
| "alloc (JBool b) h = (VBool b, h)"
| "alloc (JNum n) h = (VNum n, h)"
| "alloc (JStr s) h = (VStr s, h)"
| "alloc (JArr xs) h = (case alloc_list xs h of (vs, h') \<Rightarrow> (VRef (length h'), h' @ [Arr vs]))"
| "alloc (JObj kvs) h = (case alloc_fields kvs h of (fs, h') \<Rightarrow> (VRef (length h'), h' @ [Obj fs]))"
| "alloc_list [] h = ([], h)"
| "alloc_list (x # xs) h =
     (case alloc x h of (v, h1) \<Rightarrow> (case alloc_list xs h1 of (vs, h2) \<Rightarrow> (v # vs, h2)))"
| "alloc_fields [] h = ([], h)"
| "alloc_fields (kx # kvs) h =
     (case alloc (snd kx) h of (v, h1) \<Rightarrow>
        (case alloc_fields kvs h1 of (fs, h2) \<Rightarrow> ((fst kx, v) # fs, h2)))"

section \<open>ControllerProjector: \<open>transformToControllerFormat\<close>\<close>

text \<open>
  An operation descriptor of the IR is the object literal pushed onto a controller's list:
  its properties in order.  The \<open>controllers\<close> object is a finite map from names to lists.
\<close>

type_synonym entry = "(string \<times> val) list"

type_synonym ctrls = "string \<rightharpoonup> entry list"

record ir =
  controllers :: ctrls
  components :: val
  baseUrl :: val
  name :: val
  description :: val
  version :: val

text \<open>\<open>opid.includes("Controller_")\<close> for a truthy \<open>opid\<close>.\<close>

definition opid_includes :: "heap \<Rightarrow> val \<Rightarrow> string \<Rightarrow> bool result" where
  "opid_includes h v pat =
     (case v of
        VStr s \<Rightarrow> Ok (str_includes s pat)
      | VRef a \<Rightarrow>
          (case cell_at h a of
             Some (Arr xs) \<Rightarrow> Ok (VStr pat \<in> set xs)
           | Some (Obj fs) \<Rightarrow> Throw TypeError
           | None \<Rightarrow> Throw Unmodelled)
      | _ \<Rightarrow> Throw TypeError)"

text \<open>\<open>...(operation.k && { k: operation.k })\<close>: the property is copied when truthy.\<close>

definition spread_if :: "heap \<Rightarrow> val \<Rightarrow> string \<Rightarrow> entry result" where
  "spread_if h operation k =
     rbind (field h operation k) (\<lambda>x. Ok (if truthy x then [(k, x)] else []))"

text \<open>\<open>x?.[0]\<close>.\<close>

definition opt_first :: "heap \<Rightarrow> val \<Rightarrow> val result" where
  "opt_first h x = (if x = VUndef \<or> x = VNull then Ok VUndef else getp h x ''0'')"

text \<open>\<open>operation.tags?.[0] || "DefaultController"\<close>, as the property key it is used as.\<close>

definition controller_tag :: "heap \<Rightarrow> val \<Rightarrow> string result" where
  "controller_tag h operation =
     rbind (field h operation ''tags'') (\<lambda>tags.
     rbind (opt_first h tags) (\<lambda>t0.
     to_key h (if truthy t0 then t0 else VStr ''DefaultController'')))"

text \<open>\<open>operation.operationId && !operation.operationId.includes("Controller_")\<close>.\<close>

definition keeps :: "heap \<Rightarrow> val \<Rightarrow> bool result" where
  "keeps h operation =
     rbind (field h operation ''operationId'') (\<lambda>opid.
     if truthy opid then rbind (opid_includes h opid ''Controller_'') (\<lambda>b. Ok (\<not> b))
     else Ok False)"

text \<open>The object literal that is pushed.\<close>

definition make_entry :: "heap \<Rightarrow> string \<Rightarrow> string \<Rightarrow> val \<Rightarrow> entry result" where
  "make_entry h method path operation =
     rbind (field h operation ''operationId'') (\<lambda>opid.
     rbind (spread_if h operation ''summary'') (\<lambda>e1.
     rbind (spread_if h operation ''parameters'') (\<lambda>e2.
     rbind (spread_if h operation ''requestBody'') (\<lambda>e3.
     rbind (spread_if h operation ''responses'') (\<lambda>e4.
     Ok ([(''method'', VStr method), (''path'', VStr path), (''operationId'', opid)]
         @ e1 @ e2 @ e3 @ e4))))))"

text \<open>
  \<open>if (!controllers[tag]) controllers[tag] = []\<close>: a name that \<open>Object.prototype\<close> defines
  reads as a truthy built-in, so no list is created for it.
\<close>

definition ensure_controller :: "ctrls \<Rightarrow> string \<Rightarrow> ctrls" where
  "ensure_controller cs tag =
     (if cs tag = None \<and> tag \<notin> set object_proto_names then cs(tag \<mapsto> []) else cs)"

text \<open>\<open>controllers[tag].push(e)\<close>: a built-in read through the prototype has no \<open>push\<close>.\<close>

definition push_entry :: "ctrls \<Rightarrow> string \<Rightarrow> entry \<Rightarrow> ctrls result" where
  "push_entry cs tag e =
     (case cs tag of None \<Rightarrow> Throw TypeError | Some es \<Rightarrow> Ok (cs(tag \<mapsto> es @ [e])))"

text \<open>The body of the inner \<open>forEach\<close>, for one \<open>[method, operation]\<close> pair of a path item.\<close>

definition operation_step :: "heap \<Rightarrow> string \<Rightarrow> ctrls \<Rightarrow> string \<times> val \<Rightarrow> ctrls result" where
  "operation_step h path cs mo =
     (case mo of (method, operation) \<Rightarrow>
        (if \<not> truthy operation then Ok cs
         else
           rbind (controller_tag h operation) (\<lambda>tag.
           rbind (keeps h operation) (\<lambda>keep.
           if \<not> keep then Ok (ensure_controller cs tag)
           else rbind (make_entry h method path operation) (\<lambda>e.
                push_entry (ensure_controller cs tag) tag e)))))"

text \<open>The body of the outer \<open>forEach\<close>, for one \<open>[path, pathItem]\<close> pair.\<close>

definition path_step :: "heap \<Rightarrow> ctrls \<Rightarrow> string \<times> val \<Rightarrow> ctrls result" where
  "path_step h cs pi =
     (case pi of (path, pathItem) \<Rightarrow>
        rbind (entries h pathItem) (\<lambda>ops. foldM (operation_step h path) cs ops))"

text \<open>A destructuring default \<open>x = d\<close>: the default replaces \<open>undefined\<close> only.\<close>

definition default_to :: "val \<Rightarrow> val \<Rightarrow> val" where
  "default_to x d = (if x = VUndef then d else x)"

text \<open>
  \<open>transformToControllerFormat\<close>.  The default \<open>components = {}\<close> allocates an empty object,
  so the store is returned as well.
\<close>

definition with_default :: "heap \<Rightarrow> val \<Rightarrow> cell \<Rightarrow> val \<times> heap" where
  "with_default h x c = (if x = VUndef then (VRef (length h), h @ [c]) else (x, h))"

text \<open>\<open>servers[0]?.url || ""\<close>.\<close>

definition base_url :: "heap \<Rightarrow> val \<Rightarrow> val result" where
  "base_url h servers =
     rbind (getp h servers ''0'') (\<lambda>s0.
     rbind (if s0 = VUndef \<or> s0 = VNull then Ok VUndef else field h s0 ''url'') (\<lambda>url.
     Ok (if truthy url then url else VStr [])))"

definition transformToControllerFormat :: "heap \<Rightarrow> val \<Rightarrow> (ir \<times> heap) result" where
  "transformToControllerFormat h parsedDoc =
     rbind (field h parsedDoc ''info'') (\<lambda>info.
     rbind (field h info ''title'') (\<lambda>title.
     rbind (field h info ''description'') (\<lambda>descr.
     rbind (field h info ''version'') (\<lambda>vers.
     rbind (field h parsedDoc ''servers'') (\<lambda>servers0.
     rbind (field h parsedDoc ''paths'') (\<lambda>paths.
     rbind (field h parsedDoc ''components'') (\<lambda>components0.
     (case with_default h servers0 (Arr []) of (servers, h1) \<Rightarrow>
     (case with_default h1 components0 (Obj []) of (comps, h2) \<Rightarrow>
     rbind (base_url h2 servers) (\<lambda>url.
     rbind (entries h2 paths) (\<lambda>pes.
     rbind (foldM (path_step h2) Map.empty pes) (\<lambda>cs.
     Ok (\<lparr> controllers = cs, components = comps, baseUrl = url,
           name = title, description = default_to descr (VStr []), version = vers \<rparr>, h2)))))))))))))"

section \<open>ReferenceResolver: \<open>resolveRefs\<close>\<close>

subsection \<open>The deep copy \<open>JSON.parse(JSON.stringify(doc))\<close>\<close>

text \<open>
  \<open>JSON.stringify\<close> drops the properties of an object whose value is \<open>undefined\<close>, writes
  \<open>undefined\<close> array elements as \<open>null\<close> and raises a \<open>TypeError\<close> on a cyclic structure.
  \<open>readback n h v\<close> reads the tree below \<open>v\<close> to depth \<open>n\<close>; a path through more
  objects than the store has cells passes through one of them twice, so with
  \<open>n = length h\<close> running out of depth is exactly the cyclic case.
\<close>

fun mapM :: "('a \<Rightarrow> 'b result) \<Rightarrow> 'a list \<Rightarrow> 'b list result" where
  "mapM f [] = Ok []"
| "mapM f (x # xs) = rbind (f x) (\<lambda>y. rbind (mapM f xs) (\<lambda>ys. Ok (y # ys)))"

primrec readback :: "nat \<Rightarrow> heap \<Rightarrow> val \<Rightarrow> json result" where
  "readback 0 h v =
     (case v of
        VUndef \<Rightarrow> Ok JUndef | VNull \<Rightarrow> Ok JNull | VBool b \<Rightarrow> Ok (JBool b)
      | VNum i \<Rightarrow> Ok (JNum i) | VStr s \<Rightarrow> Ok (JStr s)
      | VRef a \<Rightarrow> Throw TypeError)"
| "readback (Suc n) h v =
     (case v of
        VUndef \<Rightarrow> Ok JUndef | VNull \<Rightarrow> Ok JNull | VBool b \<Rightarrow> Ok (JBool b)
      | VNum i \<Rightarrow> Ok (JNum i) | VStr s \<Rightarrow> Ok (JStr s)
      | VRef a \<Rightarrow>
          (case cell_at h a of
             None \<Rightarrow> Throw Unmodelled
           | Some (Arr xs) \<Rightarrow>
               rbind (mapM (readback n h) xs)
                 (\<lambda>ts. Ok (JArr (map (\<lambda>t. if t = JUndef then JNull else t) ts)))
           | Some (Obj fs) \<Rightarrow>
               rbind (mapM (readback n h) (map snd fs))
                 (\<lambda>ts. Ok (JObj (filter (\<lambda>kt. snd kt \<noteq> JUndef) (zip (map fst fs) ts))))))"

definition clone :: "heap \<Rightarrow> val \<Rightarrow> (val \<times> heap) result" where
  "clone h doc =
     rbind (readback (length h) h doc) (\<lambda>t.
     if t = JUndef then Throw SyntaxError else Ok (alloc t h))"

subsection \<open>\<open>getRefInfo\<close> and \<open>extractParameterInfo\<close>\<close>

definition getRefInfo :: "string \<Rightarrow> string \<times> string" where
  "getRefInfo ref =
     (let parts = split_on (CHR ''/'') ref; nm = last parts in
      if ''parameters'' \<in> set parts then (nm, ''parameter'')
      else if ''schemas'' \<in> set parts then (nm, ''schema'')
      else (nm, ''other''))"

text \<open>\<open>x.in && x.name && x.schema\<close>, as a condition.\<close>

definition param_shaped :: "heap \<Rightarrow> val \<Rightarrow> bool result" where
  "param_shaped h x =
     rbind (field h x ''in'') (\<lambda>pin.
     if \<not> truthy pin then Ok False
     else rbind (field h x ''name'') (\<lambda>pname.
          if \<not> truthy pname then Ok False
          else rbind (field h x ''schema'') (\<lambda>schema. Ok (truthy schema))))"

text \<open>
  \<open>refName\<close> is the final segment of the pointer, or \<open>null\<close> (the default) for an inline
  parameter.  The descriptor and its \<open>parameterDetails\<close> are two fresh objects.
\<close>

definition extractParameterInfo :: "heap \<Rightarrow> val \<Rightarrow> val \<Rightarrow> (val \<times> heap) result" where
  "extractParameterInfo h paramDef refName =
     rbind (param_shaped h paramDef) (\<lambda>shaped.
     if \<not> shaped then Ok (paramDef, h)
     else
       rbind (field h paramDef ''schema'') (\<lambda>schema.
       rbind (field h schema ''type'') (\<lambda>ty.
       if ty = VStr ''string'' \<or> ty = VStr ''integer'' then
         rbind (field h paramDef ''name'') (\<lambda>pname.
         rbind (field h paramDef ''in'') (\<lambda>pin.
         rbind (field h paramDef ''required'') (\<lambda>req.
         rbind (field h schema ''format'') (\<lambda>fmt.
         Ok (VRef (Suc (length h)),
             h @ [Obj [(''name'', pname), (''type'', ty), (''location'', pin),
                       (''required'', VBool (truthy req)), (''format'', fmt)],
                  Obj [(''modelName'', refName), (''refType'', VStr ''parameter''),
                       (''isReference'', VBool (truthy refName)),
                       (''parameterDetails'', VRef (length h))]])))))
       else Ok (paramDef, h))))"

subsection \<open>\<open>resolveRef\<close>\<close>

fun set_field :: "string \<Rightarrow> val \<Rightarrow> (string \<times> val) list \<Rightarrow> (string \<times> val) list" where
  "set_field k v [] = [(k, v)]"
| "set_field k v (kx # fs) = (if fst kx = k then (k, v) # fs else kx # set_field k v fs)"

text \<open>\<open>obj.map(item => rec(item))\<close>: the items in order, the store threaded through.\<close>

fun map_items :: "(heap \<Rightarrow> val \<Rightarrow> (val \<times> heap) result) \<Rightarrow> val list \<Rightarrow> heap \<Rightarrow> (val list \<times> heap) result" where
  "map_items rec [] h = Ok ([], h)"
| "map_items rec (x # xs) h =
     rbind (rec h x) (\<lambda>r.
     rbind (map_items rec xs (snd r)) (\<lambda>rs. Ok (fst r # fst rs, snd rs)))"

text \<open>
  One iteration \<open>obj[key] = rec(obj[key])\<close> of the \<open>for ... in\<close> loop over the object at
  address \<open>a\<close>: the property is read from the store as it is now and written back to the
  object as it is after the call.
\<close>

definition assign_step :: "(heap \<Rightarrow> val \<Rightarrow> (val \<times> heap) result) \<Rightarrow> nat \<Rightarrow> heap \<Rightarrow> string \<Rightarrow> heap result" where
  "assign_step rec a h key =
     (case cell_at h a of
        Some (Obj fs) \<Rightarrow>
          (case map_of fs key of
             None \<Rightarrow> Throw Unmodelled
           | Some child \<Rightarrow>
               rbind (rec h child) (\<lambda>r.
               (case cell_at (snd r) a of
                  Some (Obj fs') \<Rightarrow> Ok ((snd r)[a := Obj (set_field key (fst r) fs')])
                | _ \<Rightarrow> Throw Unmodelled)))
      | _ \<Rightarrow> Throw Unmodelled)"

text \<open>The branch of \<open>resolveRef\<close> for an object that carries a truthy \<open>$ref\<close>.\<close>

definition resolve_pointer :: "val \<Rightarrow> heap \<Rightarrow> val \<Rightarrow> (val \<times> heap) result" where
  "resolve_pointer resolved h r =
     (case r of
        VStr ref \<Rightarrow>
          (case getRefInfo ref of (nm, ty) \<Rightarrow>
             if ty = ''parameter'' then
               rbind (foldM (getp h) resolved (split_on (CHR ''/'') (remove_first ''#/'' ref)))
                 (\<lambda>paramDef. extractParameterInfo h paramDef (VStr nm))
             else
               Ok (VRef (length h),
                   h @ [Obj [(''modelName'', VStr nm), (''refType'', VStr ty),
                             (''isReference'', VBool True)]]))
      | _ \<Rightarrow> Throw TypeError)"

text \<open>
  \<open>resolveRef\<close>, with \<open>resolved\<close> the root of the copy.  The recursion follows the store, so
  it is bounded by fuel: one unit for each level of nesting.
\<close>

primrec resolveRef :: "nat \<Rightarrow> val \<Rightarrow> heap \<Rightarrow> val \<Rightarrow> (val \<times> heap) result" where
  "resolveRef 0 resolved h obj = (case obj of VRef a \<Rightarrow> OutOfFuel | _ \<Rightarrow> Ok (obj, h))"
| "resolveRef (Suc n) resolved h obj =
     (case obj of
        VRef a \<Rightarrow>
          (case cell_at h a of
             None \<Rightarrow> Throw Unmodelled
           | Some (Arr xs) \<Rightarrow>
               rbind (map_items (resolveRef n resolved) xs h)
                 (\<lambda>rs. Ok (VRef (length (snd rs)), snd rs @ [Arr (fst rs)]))
           | Some (Obj fs) \<Rightarrow>
               rbind (field h obj ''$ref'') (\<lambda>r.
               if truthy r then resolve_pointer resolved h r
               else
                 rbind (param_shaped h obj) (\<lambda>shaped.
                 if shaped then extractParameterInfo h obj VNull
                 else
                   rbind (foldM (assign_step (resolveRef n resolved) a) h (map fst fs))
                     (\<lambda>h'. Ok (obj, h')))))
      | _ \<Rightarrow> Ok (obj, h))"

definition resolveRefs :: "nat \<Rightarrow> heap \<Rightarrow> val \<Rightarrow> (val \<times> heap) result" where
  "resolveRefs fuel h doc =
     rbind (clone h doc) (\<lambda>c. resolveRef fuel (fst c) (snd c) (fst c))"

section \<open>VersionNormalizer: \<open>normalizeDoc\<close>\<close>

text \<open>
  \<open>normalizeDoc\<close> only reads its argument and builds a new object, so it is a function on
  trees.  A property of the result whose value is \<open>undefined\<close> is kept as \<open>JUndef\<close>.
\<close>

fun jtruthy :: "json \<Rightarrow> bool" where
  "jtruthy JUndef = False"
| "jtruthy JNull = False"
| "jtruthy (JBool b) = b"
| "jtruthy (JNum n) = (n \<noteq> 0)"
| "jtruthy (JStr s) = (s \<noteq> [])"
| "jtruthy (JArr xs) = True"
| "jtruthy (JObj fs) = True"

text \<open>\<open>doc.k\<close> on an object or array (the read cannot raise there).\<close>

definition jget :: "json \<Rightarrow> string \<Rightarrow> json" where
  "jget doc k = (case doc of JObj fs \<Rightarrow> (case map_of fs k of Some x \<Rightarrow> x | None \<Rightarrow> JUndef) | _ \<Rightarrow> JUndef)"

text \<open>\<open>x?.[0]\<close>.\<close>

definition jfirst :: "json \<Rightarrow> json" where
  "jfirst x =
     (case x of
        JArr xs \<Rightarrow> (case xs of [] \<Rightarrow> JUndef | y # ys \<Rightarrow> y)
      | JStr s \<Rightarrow> (case s of [] \<Rightarrow> JUndef | c # cs \<Rightarrow> JStr [c])
      | JObj fs \<Rightarrow> (case map_of fs ''0'' of Some y \<Rightarrow> y | None \<Rightarrow> JUndef)
      | _ \<Rightarrow> JUndef)"

text \<open>\<open>x || d\<close>.\<close>

definition jor :: "json \<Rightarrow> json \<Rightarrow> json" where
  "jor x d = (if jtruthy x then x else d)"

fun join_with :: "string \<Rightarrow> string list \<Rightarrow> string" where
  "join_with sep [] = []"
| "join_with sep [x] = x"
| "join_with sep (x # y # ys) = x @ sep @ join_with sep (y # ys)"

text \<open>
  The string conversion of a template literal.  An array joins the conversions of its
  elements with commas (\<open>null\<close> and \<open>undefined\<close> elements print as the empty string); an
  object prints as \<open>[object Object]\<close>, and raises when it has an own \<open>toString\<close> (a JSON
  value, not callable).
\<close>

fun jstring :: "json \<Rightarrow> string result"
  and jstrings :: "json list \<Rightarrow> string list result" where
  "jstring JUndef = Ok ''undefined''"
| "jstring JNull = Ok ''null''"
| "jstring (JBool b) = Ok (if b then ''true'' else ''false'')"
| "jstring (JNum n) = num_string n"
| "jstring (JStr s) = Ok s"
| "jstring (JArr xs) = rbind (jstrings xs) (\<lambda>ss. Ok (join_with '','' ss))"
| "jstring (JObj fs) =
     (if map_of fs ''toString'' = None then Ok ''[object Object]'' else Throw TypeError)"
| "jstrings [] = Ok []"
| "jstrings (x # xs) =
     rbind (if x = JUndef \<or> x = JNull then Ok [] else jstring x) (\<lambda>s.
     rbind (jstrings xs) (\<lambda>ss. Ok (s # ss)))"

text \<open>The \<open>servers\<close> of the Swagger 2.0 branch.\<close>

definition swagger_servers :: "json \<Rightarrow> json result" where
  "swagger_servers doc =
     (if jtruthy (jget doc ''host'') then
        rbind (jstring (jor (jfirst (jget doc ''schemes'')) (JStr ''https''))) (\<lambda>scheme.
        rbind (jstring (jget doc ''host'')) (\<lambda>host.
        rbind (jstring (jor (jget doc ''basePath'') (JStr []))) (\<lambda>basePath.
        Ok (JArr [JObj [(''url'', JStr (scheme @ ''://'' @ host @ basePath))]]))))
      else Ok (JArr []))"

definition has_key :: "json \<Rightarrow> string \<Rightarrow> bool result" where
  "has_key doc k =
     (case doc of
        JObj fs \<Rightarrow> Ok (map_of fs k \<noteq> None)
      | JArr xs \<Rightarrow> Ok False
      | _ \<Rightarrow> Throw TypeError)"

definition normalizeDoc :: "json \<Rightarrow> json result" where
  "normalizeDoc doc =
     rbind (has_key doc ''swagger'') (\<lambda>sw.
     if sw then
       rbind (swagger_servers doc) (\<lambda>servers.
       Ok (JObj
         [(''openapi'', if jget doc ''swagger'' = JStr ''2.0'' then JStr ''3.0.0'' else jget doc ''swagger''),
          (''info'', jget doc ''info''),
          (''servers'', servers),
          (''paths'', jget doc ''paths''),
          (''components'', JObj
             [(''schemas'', jor (jget doc ''definitions'') (JObj [])),
              (''parameters'', jor (jget doc ''parameters'') (JObj [])),
              (''responses'', jor (jget doc ''responses'') (JObj [])),
              (''securitySchemes'', jor (jget doc ''securityDefinitions'') (JObj []))]),
          (''tags'', jor (jget doc ''tags'') (JArr []))]))
     else
       Ok (JObj
         [(''openapi'', jget doc ''openapi''),
          (''info'', jget doc ''info''),
          (''servers'', jor (jget doc ''servers'') (JArr [])),
          (''paths'', jget doc ''paths''),
          (''components'', jor (jget doc ''components'') (JObj [])),
          (''tags'', jor (jget doc ''tags'') (JArr []))]))"

section \<open>Loader and FormatDecoder: \<open>parseToDocObject\<close>\<close>

text \<open>
  The collaborators of the loader are parameters: the helper \<open>isValidUrl\<close>, the HTTP fetch
  (\<open>None\<close>: the request failed), \<open>path.isAbsolute\<close>, \<open>path.resolve\<close>, \<open>readFileSync\<close> (\<open>None\<close>:
  it raised) and the two decoders (\<open>None\<close>: the text is not of that format).
\<close>

record env =
  isValidUrl :: "string \<Rightarrow> bool"
  fetchFromUrl :: "string \<Rightarrow> string option"
  isAbsolute :: "string \<Rightarrow> bool"
  resolve :: "string \<Rightarrow> string"
  readFileSync :: "string \<Rightarrow> string option"
  parseJson :: "string \<Rightarrow> json option"
  parseYaml :: "string \<Rightarrow> json option"

definition processContent :: "env \<Rightarrow> string \<Rightarrow> json result" where
  "processContent e content =
     (case parseJson e content of
        Some d \<Rightarrow> Ok d
      | None \<Rightarrow> (case parseYaml e content of Some d \<Rightarrow> Ok d | None \<Rightarrow> Throw ContentParsingError))"

text \<open>
  \<open>requiredFields.some(field => hasOwnProperty.call(doc, field))\<close>: on \<open>null\<close> and
  \<open>undefined\<close> the call raises; a primitive or an array has none of the four names.
\<close>

definition validateBasicStructure :: "json \<Rightarrow> bool result" where
  "validateBasicStructure doc =
     (case doc of
        JUndef \<Rightarrow> Throw TypeError
      | JNull \<Rightarrow> Throw TypeError
      | JObj fs \<Rightarrow> Ok (\<exists>k \<in> set [''swagger'', ''openapi'', ''info'', ''paths'']. map_of fs k \<noteq> None)
      | _ \<Rightarrow> Ok False)"

definition looks_inline :: "string \<Rightarrow> bool" where
  "looks_inline input =
     (str_includes input ''openapi:'' \<or> str_includes input (CHR 0x22 # ''openapi'' @ [CHR 0x22, CHR '':'']) \<or>
      str_includes input ''swagger:'' \<or> str_includes input (CHR 0x22 # ''swagger'' @ [CHR 0x22, CHR '':'']))"

text \<open>The content the loader decodes: fetched, read from a file, or the input itself.\<close>

definition load_content :: "env \<Rightarrow> string \<Rightarrow> string result" where
  "load_content e input =
     (if isValidUrl e input then
        (case fetchFromUrl e input of None \<Rightarrow> Throw NetworkError | Some c \<Rightarrow> Ok c)
      else if \<not> isAbsolute e input \<and> \<not> looks_inline input then
        (case readFileSync e (resolve e input) of None \<Rightarrow> Throw ValidationError | Some c \<Rightarrow> Ok c)
      else Ok input)"

definition parseToDocObject :: "env \<Rightarrow> string \<Rightarrow> json result" where
  "parseToDocObject e input =
     (if input = [] then Throw ValidationError
      else
        rbind (load_content e input) (\<lambda>content.
        rbind (processContent e content) (\<lambda>result.
        rbind (validateBasicStructure result) (\<lambda>valid.
        if valid then Ok result else Throw ValidationError))))"

section \<open>\<open>parse\<close>\<close>

text \<open>
  The part of \<open>parse\<close> after the document is loaded.  The normalized document is a fresh
  tree of objects; the projection of the unresolved document is computed (and logged)
  before the projection of the resolved one is returned.
\<close>

definition parse_doc :: "nat \<Rightarrow> json \<Rightarrow> (ir \<times> heap) result" where
  "parse_doc fuel rawDoc =
     rbind (normalizeDoc rawDoc) (\<lambda>nd.
     (case alloc nd [] of (normalizedDoc, h0) \<Rightarrow>
        rbind (resolveRefs fuel h0 normalizedDoc) (\<lambda>r.
        rbind (transformToControllerFormat (snd r) normalizedDoc) (\<lambda>cf.
        transformToControllerFormat (snd cf) (fst r)))))"

definition parse :: "env \<Rightarrow> nat \<Rightarrow> string \<Rightarrow> (ir \<times> heap) result" where
  "parse e fuel input = rbind (parseToDocObject e input) (parse_doc fuel)"

section \<open>Example documents\<close>

text \<open>The document of the parser's test suite (literal scenario 1).\<close>

definition test_doc :: json where
  "test_doc = JObj [(''openapi'', JStr ''3.0.0''),
     (''info'', JObj [(''title'', JStr ''Test API''), (''version'', JStr ''1.0.0'')]),
     (''servers'', JArr []),
     (''paths'', JObj [(''/test'', JObj [
         (''get'', JObj [(''operationId'', JStr ''getTest''), (''tags'', JArr [JStr ''TestController'']),
                        (''summary'', JStr ''Test endpoint'')]),
         (''post'', JObj [(''operationId'', JStr ''Controller_postTest''),
                         (''tags'', JArr [JStr ''TestController''])])])]),
     (''components'', JObj [(''schemas'', JObj [(''Test'', JObj [(''type'', JStr ''object'')])])]),
     (''tags'', JArr [])]"

definition test_heap :: heap where
  "test_heap = snd (alloc test_doc [])"

text \<open>A path item that carries a description and path-level parameters, and no operation.\<close>

definition pathlevel_doc :: json where
  "pathlevel_doc = JObj [(''info'', JObj [(''title'', JStr ''T''), (''version'', JStr ''1'')]),
     (''servers'', JArr []),
     (''paths'', JObj [(''/a'', JObj [(''description'', JStr ''x''), (''parameters'', JArr [])])]),
     (''components'', JObj [])]"

definition pathlevel_heap :: heap where
  "pathlevel_heap = snd (alloc pathlevel_doc [])"

text \<open>
  The servers of a Swagger 2.0 document as the specification words them: the scheme is
  \<open>schemes[0] ?? "https"\<close> (the default replaces a missing first scheme only), the URL is
  scheme, \<open>://\<close>, host and base path, and the sequence is empty when there is no \<open>host\<close>.  The
  fields have the types of the interface \<open>Swagger2Doc\<close> (strings, and a list of strings).
\<close>

definition spec_scheme :: "json \<Rightarrow> string" where
  "spec_scheme doc =
     (case jget doc ''schemes'' of
        JArr (JStr s # rest) \<Rightarrow> s
      | _ \<Rightarrow> ''https'')"

definition spec_servers :: "json \<Rightarrow> json" where
  "spec_servers doc =
     (case jget doc ''host'' of
        JStr host \<Rightarrow>
          JArr [JObj [(''url'', JStr (spec_scheme doc @ ''://'' @ host @
                 (case jget doc ''basePath'' of JStr b \<Rightarrow> b | _ \<Rightarrow> [])))]]
      | _ \<Rightarrow> JArr [])"

text \<open>A non-empty string, and the characters of a string (none for any other value).\<close>

definition nonempty_string :: "json \<Rightarrow> bool" where
  "nonempty_string x = (case x of JStr s \<Rightarrow> s \<noteq> [] | _ \<Rightarrow> False)"

definition string_of :: "json \<Rightarrow> string" where
  "string_of x = (case x of JStr s \<Rightarrow> s | _ \<Rightarrow> [])"

definition string_or_absent :: "json \<Rightarrow> bool" where
  "string_or_absent x = (case x of JUndef \<Rightarrow> True | JStr s \<Rightarrow> True | _ \<Rightarrow> False)"

definition strings_or_absent :: "json \<Rightarrow> bool" where
  "strings_or_absent x =
     (case x of JUndef \<Rightarrow> True | JArr xs \<Rightarrow> list_all (\<lambda>y. case y of JStr s \<Rightarrow> True | _ \<Rightarrow> False) xs
      | _ \<Rightarrow> False)"

text \<open>Literal scenario 2.\<close>

definition swagger_doc :: json where
  "swagger_doc = JObj [(''swagger'', JStr ''2.0''),
     (''info'', JObj [(''title'', JStr ''T''), (''version'', JStr ''1'')]),
     (''host'', JStr ''api.example.com''), (''schemes'', JArr [JStr ''https'']),
     (''basePath'', JStr []), (''paths'', JObj []),
     (''definitions'', JObj [(''Pet'', JObj [(''type'', JStr ''object'')])])]"

text \<open>Swagger 2.0 documents with an empty first scheme, and with an empty host.\<close>

definition empty_scheme_doc :: json where
  "empty_scheme_doc = JObj [(''swagger'', JStr ''2.0''),
     (''info'', JObj [(''title'', JStr ''T''), (''version'', JStr ''1'')]),
     (''host'', JStr ''api.example.com''), (''schemes'', JArr [JStr []]),
     (''paths'', JObj [])]"

definition empty_host_doc :: json where
  "empty_host_doc = JObj [(''swagger'', JStr ''2.0''),
     (''info'', JObj [(''title'', JStr ''T''), (''version'', JStr ''1'')]),
     (''host'', JStr []), (''schemes'', JArr [JStr ''http'']), (''basePath'', JStr ''/v1''),
     (''paths'', JObj [])]"

text \<open>
  An environment for the loader: a POSIX file system that holds one readable document at
  \<open>/tmp/api.json\<close>, no network, a JSON decoder that knows this document's text and a YAML
  decoder that reads any other text as a plain scalar.
\<close>

definition file_text :: string where
  "file_text = ''{ openapi: 3.0.0 }''"

definition posix_env :: env where
  "posix_env = \<lparr> isValidUrl = (\<lambda>s. prefix ''http://'' s \<or> prefix ''https://'' s),
       fetchFromUrl = (\<lambda>u. None),
       isAbsolute = (\<lambda>s. prefix ''/'' s),
       resolve = (\<lambda>s. if prefix ''/'' s then s else ''/tmp/'' @ s),
       readFileSync = (\<lambda>f. if f = ''/tmp/api.json'' then Some file_text else None),
       parseJson = (\<lambda>t. if t = file_text then Some (JObj [(''openapi'', JStr ''3.0.0'')]) else None),
       parseYaml = (\<lambda>t. Some (JStr t)) \<rparr>"

text \<open>
  Well-formed stores.  \<open>vok n0 h v\<close>: the value \<open>v\<close> is a primitive or the address of a
  cell of \<open>h\<close> at or above \<open>n0\<close>.  \<open>closed n0 h\<close>: the cells of \<open>h\<close> from \<open>n0\<close> on hold only
  such values, so nothing reachable from them lies below \<open>n0\<close> or outside the store.
\<close>

definition vok :: "nat \<Rightarrow> heap \<Rightarrow> val \<Rightarrow> bool" where
  "vok n0 h v = (case v of VRef b \<Rightarrow> n0 \<le> b \<and> b < length h | _ \<Rightarrow> True)"

definition cok :: "nat \<Rightarrow> heap \<Rightarrow> cell \<Rightarrow> bool" where
  "cok n0 h c =
     (case c of Obj fs \<Rightarrow> list_all (\<lambda>kv. vok n0 h (snd kv)) fs | Arr xs \<Rightarrow> list_all (vok n0 h) xs)"

definition closed :: "nat \<Rightarrow> heap \<Rightarrow> bool" where
  "closed n0 h = (n0 \<le> length h \<and> list_all (cok n0 h) (drop n0 h))"

text \<open>A property read in a statement, where the read is known not to raise.\<close>

definition fld :: "heap \<Rightarrow> val \<Rightarrow> string \<Rightarrow> val" where
  "fld h v k = (case field h v k of Ok x \<Rightarrow> x | _ \<Rightarrow> VUndef)"



text \<open>
  Literal scenario 3, normalized: an operation refers to the parameter \<open>PageSize\<close> of
  \<open>components.parameters\<close>.
\<close>

definition pagesize_doc :: json where
  "pagesize_doc = JObj [(''openapi'', JStr ''3.0.0''),
     (''info'', JObj [(''title'', JStr ''T''), (''version'', JStr ''1'')]),
     (''servers'', JArr []),
     (''paths'', JObj [(''/items'', JObj [
         (''get'', JObj [(''operationId'', JStr ''listItems''),
            (''parameters'', JArr [JObj [(''$ref'', JStr ''#/components/parameters/PageSize'')]])])])]),
     (''components'', JObj [(''parameters'', JObj [(''PageSize'',
         JObj [(''in'', JStr ''query''), (''name'', JStr ''pageSize''), (''required'', JBool False),
               (''schema'', JObj [(''type'', JStr ''integer''), (''format'', JStr ''int32'')])])])]),
     (''tags'', JArr [])]"

definition pagesize_heap :: heap where
  "pagesize_heap = snd (alloc pagesize_doc [])"


text \<open>A schema that refers to itself: the pointers of this document form a cycle.\<close>

definition cyclic_doc :: json where
  "cyclic_doc = JObj [(''openapi'', JStr ''3.0.0''),
     (''info'', JObj [(''title'', JStr ''T''), (''version'', JStr ''1'')]),
     (''servers'', JArr []),
     (''paths'', JObj []),
     (''components'', JObj [(''schemas'', JObj [(''Node'',
         JObj [(''type'', JStr ''object''),
               (''properties'', JObj [(''next'', JObj [(''$ref'', JStr ''#/components/schemas/Node'')])])])])]),
     (''tags'', JArr [])]"

definition cyclic_heap :: heap where
  "cyclic_heap = snd (alloc cyclic_doc [])"

text \<open>What a call of the resolver guarantees about the store above \<open>n0\<close> and below it.\<close>

definition good :: "nat \<Rightarrow> val \<Rightarrow> (heap \<Rightarrow> val \<Rightarrow> (val \<times> heap) result) \<Rightarrow> bool" where
  "good n0 root rec =
     (\<forall>h v r h'. closed n0 h \<longrightarrow> vok n0 h root \<longrightarrow> vok n0 h v \<longrightarrow> rec h v = Ok (r, h') \<longrightarrow>
        closed n0 h' \<and> vok n0 h' r \<and> length h \<le> length h' \<and> take n0 h' = take n0 h)"








text \<open>An object with a \<open>$ref\<close> property occurs in the tree.\<close>

fun json_has_ref :: "json \<Rightarrow> bool"
  and jsons_have_ref :: "json list \<Rightarrow> bool"
  and fields_have_ref :: "(string \<times> json) list \<Rightarrow> bool" where
  "json_has_ref (JObj fs) = (map_of fs ''$ref'' \<noteq> None \<or> fields_have_ref fs)"
| "json_has_ref (JArr xs) = jsons_have_ref xs"
| "json_has_ref JUndef = False"
| "json_has_ref JNull = False"
| "json_has_ref (JBool b) = False"
| "json_has_ref (JNum n) = False"
| "json_has_ref (JStr s) = False"
| "jsons_have_ref [] = False"
| "jsons_have_ref (x # xs) = (json_has_ref x \<or> jsons_have_ref xs)"
| "fields_have_ref [] = False"
| "fields_have_ref (kx # fs) = (json_has_ref (snd kx) \<or> fields_have_ref fs)"

text \<open>A parameter that refers to itself.\<close>

definition self_param_doc :: json where
  "self_param_doc = JObj [(''openapi'', JStr ''3.0.0''),
     (''info'', JObj [(''title'', JStr ''T''), (''version'', JStr ''1'')]),
     (''paths'', JObj []),
     (''components'', JObj [(''parameters'', JObj [(''A'',
         JObj [(''$ref'', JStr ''#/components/parameters/A'')])])])]"

definition is_ok :: "'a result \<Rightarrow> bool" where
  "is_ok r = (case r of Ok x \<Rightarrow> True | _ \<Rightarrow> False)"

text \<open>The nesting depth of a tree, and trees whose objects have distinct keys.\<close>

fun depth :: "json \<Rightarrow> nat"
  and depths :: "json list \<Rightarrow> nat"
  and depthf :: "(string \<times> json) list \<Rightarrow> nat" where
  "depth (JArr xs) = Suc (depths xs)"
| "depth (JObj fs) = Suc (depthf fs)"
| "depth JUndef = 0"
| "depth JNull = 0"
| "depth (JBool b) = 0"
| "depth (JNum n) = 0"
| "depth (JStr s) = 0"
| "depths [] = 0"
| "depths (x # xs) = max (depth x) (depths xs)"
| "depthf [] = 0"
| "depthf (kx # fs) = max (depth (snd kx)) (depthf fs)"

fun distinct_keys :: "json \<Rightarrow> bool"
  and distinct_keys_list :: "json list \<Rightarrow> bool"
  and distinct_keys_fields :: "(string \<times> json) list \<Rightarrow> bool" where
  "distinct_keys (JArr xs) = distinct_keys_list xs"
| "distinct_keys (JObj fs) = (distinct (map fst fs) \<and> distinct_keys_fields fs)"
| "distinct_keys JUndef = True"
| "distinct_keys JNull = True"
| "distinct_keys (JBool b) = True"
| "distinct_keys (JNum n) = True"
| "distinct_keys (JStr s) = True"
| "distinct_keys_list [] = True"
| "distinct_keys_list (x # xs) = (distinct_keys x \<and> distinct_keys_list xs)"
| "distinct_keys_fields [] = True"
| "distinct_keys_fields (kx # fs) = (distinct_keys (snd kx) \<and> distinct_keys_fields fs)"

text \<open>
  \<open>rep lo hi h v t\<close>: the cells of \<open>h\<close> at the addresses from \<open>lo\<close> up to \<open>hi\<close> are the
  objects of the tree \<open>t\<close>, laid out as \<open>alloc\<close> does (the children in order, then the
  node), and \<open>v\<close> is its value.
\<close>

fun rep :: "nat \<Rightarrow> nat \<Rightarrow> heap \<Rightarrow> val \<Rightarrow> json \<Rightarrow> bool"
  and reps :: "nat \<Rightarrow> nat \<Rightarrow> heap \<Rightarrow> val list \<Rightarrow> json list \<Rightarrow> bool"
  and repf :: "nat \<Rightarrow> nat \<Rightarrow> heap \<Rightarrow> (string \<times> val) list \<Rightarrow> (string \<times> json) list \<Rightarrow> bool" where
  "rep lo hi h v (JArr ts) =
     (\<exists>m vs. hi = Suc m \<and> lo \<le> m \<and> v = VRef m \<and> cell_at h m = Some (Arr vs) \<and> reps lo m h vs ts)"
| "rep lo hi h v (JObj kts) =
     (\<exists>m fs. hi = Suc m \<and> lo \<le> m \<and> v = VRef m \<and> cell_at h m = Some (Obj fs) \<and> repf lo m h fs kts)"
| "rep lo hi h v JUndef = (v = VUndef \<and> hi = lo)"
| "rep lo hi h v JNull = (v = VNull \<and> hi = lo)"
| "rep lo hi h v (JBool b) = (v = VBool b \<and> hi = lo)"
| "rep lo hi h v (JNum n) = (v = VNum n \<and> hi = lo)"
| "rep lo hi h v (JStr s) = (v = VStr s \<and> hi = lo)"
| "reps lo hi h vs [] = (vs = [] \<and> hi = lo)"
| "reps lo hi h vs (t # ts) =
     (\<exists>v vs' mid. vs = v # vs' \<and> lo \<le> mid \<and> mid \<le> hi \<and> rep lo mid h v t \<and> reps mid hi h vs' ts)"
| "repf lo hi h fs [] = (fs = [] \<and> hi = lo)"
| "repf lo hi h fs (kt # kts) =
     (\<exists>v fs' mid. fs = (fst kt, v) # fs' \<and> lo \<le> mid \<and> mid \<le> hi \<and>
        rep lo mid h v (snd kt) \<and> repf mid hi h fs' kts)"

text \<open>The stores agree outside the addresses from \<open>lo\<close> up to \<open>hi\<close>, and nothing is removed.\<close>

definition same_outside :: "nat \<Rightarrow> nat \<Rightarrow> heap \<Rightarrow> heap \<Rightarrow> bool" where
  "same_outside lo hi h h' =
     (length h \<le> length h' \<and> (\<forall>a < length h. (a < lo \<or> hi \<le> a) \<longrightarrow> h' ! a = h ! a))"

text \<open>With fuel \<open>n\<close> the walk of a tree of depth at most \<open>n\<close> ends, and stays inside the tree.\<close>

definition walks :: "nat \<Rightarrow> val \<Rightarrow> bool" where
  "walks n root =
     (\<forall>t lo hi h v. rep lo hi h v t \<longrightarrow> distinct_keys t \<longrightarrow> depth t \<le> n \<longrightarrow>
        resolveRef n root h v \<noteq> OutOfFuel \<and>
        (\<forall>r h'. resolveRef n root h v = Ok (r, h') \<longrightarrow> same_outside lo hi h h'))"

text \<open>\<open>g\<close> returns what \<open>f\<close> returns wherever \<open>f\<close> does not run out of fuel.\<close>

definition extends :: "(heap \<Rightarrow> val \<Rightarrow> (val \<times> heap) result) \<Rightarrow> (heap \<Rightarrow> val \<Rightarrow> (val \<times> heap) result) \<Rightarrow> bool" where
  "extends f g = (\<forall>h v. f h v \<noteq> OutOfFuel \<longrightarrow> g h v = f h v)"

text \<open>
  A path item that carries a description beside an untagged operation that is kept, and a
  path item whose non-operation value is tagged with a name that \<open>Object.prototype\<close> defines.
\<close>

definition shared_default_doc :: json where
  "shared_default_doc = JObj [(''info'', JObj [(''title'', JStr ''T''), (''version'', JStr ''1'')]),
     (''servers'', JArr []),
     (''paths'', JObj [(''/a'', JObj [(''description'', JStr ''x''),
         (''get'', JObj [(''operationId'', JStr ''getA'')])])]),
     (''components'', JObj [])]"

definition proto_tag_doc :: json where
  "proto_tag_doc = JObj [(''info'', JObj [(''title'', JStr ''T''), (''version'', JStr ''1'')]),
     (''servers'', JArr []),
     (''paths'', JObj [(''/a'', JObj [(''x-meta'', JObj [(''tags'', JArr [JStr ''constructor''])])])]),
     (''components'', JObj [])]"

text \<open>\<open>transformToControllerFormat\<close> of a document given as a tree.\<close>

definition transform_tree :: "json \<Rightarrow> (ir \<times> heap) result" where
  "transform_tree t = (case alloc t [] of (v, h) \<Rightarrow> transformToControllerFormat h v)"

section \<open>Properties of the projection\<close>

text \<open>
  A controller list holds a descriptor for the operation at \<open>(path, method)\<close>.  The keys of an
  object are distinct, so the pair identifies the operation.
\<close>

definition has_entry :: "ctrls \<Rightarrow> string \<Rightarrow> string \<Rightarrow> bool" where
  "has_entry cs p m =
     (\<exists>tag es e. cs tag = Some es \<and> e \<in> set es \<and>
        map_of e ''method'' = Some (VStr m) \<and> map_of e ''path'' = Some (VStr p))"

text \<open>Some operation of the document is kept by the filter and goes to controller \<open>tag\<close>.\<close>

definition kept_with_tag :: "heap \<Rightarrow> (string \<times> val) list \<Rightarrow> string \<Rightarrow> bool" where
  "kept_with_tag h pes tag =
     (\<exists>p item ops m op. (p, item) \<in> set pes \<and> entries h item = Ok ops \<and> (m, op) \<in> set ops \<and>
        truthy op \<and> controller_tag h op = Ok tag \<and> keeps h op = Ok True)"

lemmas read_defs = field_def getp_def entries_def cell_at_def to_key_def is_index_def indexed_def
  chars_of_def object_proto_names_def opt_first_def

lemmas transform_defs = transformToControllerFormat_def with_default_def base_url_def default_to_def
  path_step_def operation_step_def controller_tag_def keeps_def make_entry_def spread_if_def
  opid_includes_def ensure_controller_def push_entry_def

lemma show_nat_0 [simp]: "show_nat 0 = ''0''"
  by (simp add: show_nat.simps digit_char_def)

lemma rbind_Ok_iff: "rbind r f = Ok y \<longleftrightarrow> (\<exists>x. r = Ok x \<and> f x = Ok y)"
  by (cases r) auto

lemma distinct_fst_unique:
  assumes "distinct (map fst xs)" and "(k, a) \<in> set xs" and "(k, b) \<in> set xs"
  shows "a = b"
  using assms by (meson eq_key_imp_eq_value)

lemma has_entry_empty [simp]: "\<not> has_entry Map.empty p m"
  by (simp add: has_entry_def)

lemma has_entry_ensure [simp]: "has_entry (ensure_controller cs tag) p m = has_entry cs p m"
proof (cases "cs tag = None \<and> tag \<notin> set object_proto_names")
  case False
  then show ?thesis by (auto simp: ensure_controller_def)
next
  case True
  then have e: "ensure_controller cs tag = cs(tag \<mapsto> [])" by (simp add: ensure_controller_def)
  show ?thesis
  proof
    assume "has_entry (ensure_controller cs tag) p m"
    then obtain t xs x where t: "(cs(tag \<mapsto> [])) t = Some xs" "x \<in> set xs"
      "map_of x ''method'' = Some (VStr m)" "map_of x ''path'' = Some (VStr p)"
      unfolding e has_entry_def by blast
    then have "t \<noteq> tag" by auto
    with t have "cs t = Some xs" by simp
    with t show "has_entry cs p m" unfolding has_entry_def by blast
  next
    assume "has_entry cs p m"
    then obtain t xs x where t: "cs t = Some xs" "x \<in> set xs"
      "map_of x ''method'' = Some (VStr m)" "map_of x ''path'' = Some (VStr p)"
      unfolding has_entry_def by blast
    with True have "t \<noteq> tag" by auto
    with t have "(cs(tag \<mapsto> [])) t = Some xs" by simp
    with t show "has_entry (ensure_controller cs tag) p m" unfolding e has_entry_def by blast
  qed
qed

lemma make_entry_keys:
  assumes "make_entry h m p op = Ok e"
  shows "map_of e ''method'' = Some (VStr m)" and "map_of e ''path'' = Some (VStr p)"
  using assms by (auto simp: make_entry_def rbind_Ok_iff)

lemma has_entry_push:
  assumes "push_entry cs tag e = Ok cs'"
    and "map_of e ''method'' = Some (VStr m)" and "map_of e ''path'' = Some (VStr p)"
  shows "has_entry cs' p' m' \<longleftrightarrow> has_entry cs p' m' \<or> (p' = p \<and> m' = m)"
proof -
  from assms(1) obtain es where es: "cs tag = Some es" and cs': "cs' = cs(tag \<mapsto> es @ [e])"
    by (auto simp: push_entry_def split: option.splits)
  show ?thesis
  proof
    assume "has_entry cs' p' m'"
    then obtain t xs x where t: "cs' t = Some xs" "x \<in> set xs"
      "map_of x ''method'' = Some (VStr m')" "map_of x ''path'' = Some (VStr p')"
      by (auto simp: has_entry_def)
    show "has_entry cs p' m' \<or> (p' = p \<and> m' = m)"
    proof (cases "t = tag")
      case True
      with t cs' have "x \<in> set es \<or> x = e" by auto
      then show ?thesis using t es assms(2,3) by (auto simp: has_entry_def)
    next
      case False
      with t cs' show ?thesis by (auto simp: has_entry_def)
    qed
  next
    assume "has_entry cs p' m' \<or> (p' = p \<and> m' = m)"
    then show "has_entry cs' p' m'"
    proof
      assume "has_entry cs p' m'"
      then obtain t xs x where t: "cs t = Some xs" "x \<in> set xs"
        "map_of x ''method'' = Some (VStr m')" "map_of x ''path'' = Some (VStr p')"
        by (auto simp: has_entry_def)
      show ?thesis
      proof (cases "t = tag")
        case True
        with t es cs' show ?thesis unfolding has_entry_def
          by (intro exI[of _ tag] exI[of _ "es @ [e]"] exI[of _ x]) auto
      next
        case False
        with t cs' show ?thesis unfolding has_entry_def
          by (intro exI[of _ t] exI[of _ xs] exI[of _ x]) auto
      qed
    next
      assume "p' = p \<and> m' = m"
      with assms(2,3) cs' show ?thesis unfolding has_entry_def
        by (intro exI[of _ tag] exI[of _ "es @ [e]"] exI[of _ e]) auto
    qed
  qed
qed

lemma operation_step_Ok:
  assumes "operation_step h p cs (m, op) = Ok cs'" and "truthy op"
  obtains tag keep where "controller_tag h op = Ok tag" and "keeps h op = Ok keep"
    and "\<not> keep \<Longrightarrow> cs' = ensure_controller cs tag"
    and "keep \<Longrightarrow> \<exists>e. make_entry h m p op = Ok e \<and> push_entry (ensure_controller cs tag) tag e = Ok cs'"
proof -
  from assms have 1: "rbind (controller_tag h op) (\<lambda>tag.
        rbind (keeps h op) (\<lambda>keep.
        if \<not> keep then Ok (ensure_controller cs tag)
        else rbind (make_entry h m p op) (\<lambda>e.
             push_entry (ensure_controller cs tag) tag e))) = Ok cs'"
    by (simp add: operation_step_def)
  then obtain tag where tag: "controller_tag h op = Ok tag"
    and 2: "rbind (keeps h op) (\<lambda>keep.
        if \<not> keep then Ok (ensure_controller cs tag)
        else rbind (make_entry h m p op) (\<lambda>e.
             push_entry (ensure_controller cs tag) tag e)) = Ok cs'"
    by (cases "controller_tag h op") simp_all
  from 2 obtain keep where keep: "keeps h op = Ok keep"
    and 3: "(if \<not> keep then Ok (ensure_controller cs tag)
        else rbind (make_entry h m p op) (\<lambda>e.
             push_entry (ensure_controller cs tag) tag e)) = Ok cs'"
    by (cases "keeps h op") simp_all
  show thesis
  proof (rule that[OF tag keep])
    assume "\<not> keep" with 3 show "cs' = ensure_controller cs tag" by simp
  next
    assume keep
    with 3 have "rbind (make_entry h m p op) (\<lambda>e.
             push_entry (ensure_controller cs tag) tag e) = Ok cs'" by simp
    then show "\<exists>e. make_entry h m p op = Ok e \<and> push_entry (ensure_controller cs tag) tag e = Ok cs'"
      by (cases "make_entry h m p op") simp_all
  qed
qed

lemma operation_step_has_entry:
  assumes "operation_step h p cs (m, op) = Ok cs'"
  shows "has_entry cs' p' m' \<longleftrightarrow>
         has_entry cs p' m' \<or> (p' = p \<and> m' = m \<and> truthy op \<and> keeps h op = Ok True)"
proof (cases "truthy op")
  case False
  with assms show ?thesis by (simp add: operation_step_def)
next
  case True
  from operation_step_Ok[OF assms True] obtain tag keep where
    tag: "controller_tag h op = Ok tag" and keep: "keeps h op = Ok keep"
    and nk: "\<not> keep \<Longrightarrow> cs' = ensure_controller cs tag"
    and k: "keep \<Longrightarrow> \<exists>e. make_entry h m p op = Ok e \<and> push_entry (ensure_controller cs tag) tag e = Ok cs'"
    by blast
  show ?thesis
  proof (cases keep)
    case False
    with nk keep True show ?thesis by simp
  next
    case keep_t: True
    with k obtain e where e: "make_entry h m p op = Ok e"
      and psh: "push_entry (ensure_controller cs tag) tag e = Ok cs'" by blast
    from has_entry_push[OF psh make_entry_keys[OF e]] True keep keep_t
    show ?thesis by simp
  qed
qed

lemma foldM_operation_step_has_entry:
  assumes "foldM (operation_step h p) cs ops = Ok cs'"
  shows "has_entry cs' p' m' \<longleftrightarrow>
         has_entry cs p' m' \<or> (p' = p \<and> (\<exists>op. (m', op) \<in> set ops \<and> truthy op \<and> keeps h op = Ok True))"
  using assms
proof (induction ops arbitrary: cs)
  case Nil
  then show ?case by simp
next
  case (Cons x ops)
  obtain m op where x: "x = (m, op)" by (cases x)
  from Cons.prems obtain cs1 where s1: "operation_step h p cs (m, op) = Ok cs1"
    and s2: "foldM (operation_step h p) cs1 ops = Ok cs'"
    by (auto simp: rbind_Ok_iff x)
  show ?case
    unfolding Cons.IH[OF s2] operation_step_has_entry[OF s1] x by auto
qed

lemma foldM_path_step_has_entry:
  assumes "foldM (path_step h) cs pes = Ok cs'"
  shows "has_entry cs' p' m' \<longleftrightarrow>
         has_entry cs p' m' \<or>
         (\<exists>item ops op. (p', item) \<in> set pes \<and> entries h item = Ok ops \<and>
            (m', op) \<in> set ops \<and> truthy op \<and> keeps h op = Ok True)"
  using assms
proof (induction pes arbitrary: cs)
  case Nil
  then show ?case by simp
next
  case (Cons x pes)
  obtain p item where x: "x = (p, item)" by (cases x)
  from Cons.prems have "\<exists>cs1. path_step h cs (p, item) = Ok cs1 \<and> foldM (path_step h) cs1 pes = Ok cs'"
    by (simp add: rbind_Ok_iff x)
  then obtain cs1 where s0: "path_step h cs (p, item) = Ok cs1"
    and s2: "foldM (path_step h) cs1 pes = Ok cs'" by blast
  from s0 have "\<exists>ops. entries h item = Ok ops \<and> foldM (operation_step h p) cs ops = Ok cs1"
    by (simp add: path_step_def rbind_Ok_iff)
  then obtain ops where e: "entries h item = Ok ops"
    and s1: "foldM (operation_step h p) cs ops = Ok cs1" by blast
  show ?case
    unfolding Cons.IH[OF s2] foldM_operation_step_has_entry[OF s1] x using e by auto
qed


lemma keeps_typed:
  assumes "field h op ''operationId'' = Ok opid" and "opid = VUndef \<or> (\<exists>s. opid = VStr s)"
  shows "keeps h op = Ok True \<longleftrightarrow> (\<exists>s. opid = VStr s \<and> s \<noteq> [] \<and> \<not> str_includes s ''Controller_'')"
  using assms by (auto simp: keeps_def opid_includes_def)

lemma transform_Ok:
  assumes "transformToControllerFormat h doc = Ok (ir, h')"
  obtains paths pes where "field h doc ''paths'' = Ok paths" and "entries h' paths = Ok pes"
    and "foldM (path_step h') Map.empty pes = Ok (controllers ir)"
proof -
  from assms obtain servers0 paths components0 title descr vers where
    paths: "field h doc ''paths'' = Ok paths" and
    rest: "(case with_default h servers0 (Arr []) of (servers, h1) \<Rightarrow>
       (case with_default h1 components0 (Obj []) of (comps, h2) \<Rightarrow>
        rbind (base_url h2 servers) (\<lambda>url.
        rbind (entries h2 paths) (\<lambda>pes.
        rbind (foldM (path_step h2) Map.empty pes) (\<lambda>cs.
        Ok (\<lparr> controllers = cs, components = comps, baseUrl = url,
           name = title, description = default_to descr (VStr []), version = vers \<rparr>, h2)))))) = Ok (ir, h')"
    unfolding transformToControllerFormat_def by (auto simp: rbind_Ok_iff)
  obtain servers h1 where w1: "with_default h servers0 (Arr []) = (servers, h1)" by fastforce
  obtain comps h2 where w2: "with_default h1 components0 (Obj []) = (comps, h2)" by fastforce
  from rest show thesis
    using paths that by (auto simp: w1 w2 rbind_Ok_iff)
qed

lemma operation_step_dom:
  assumes "operation_step h p cs (m, op) = Ok cs'"
  shows "cs tag \<noteq> None \<Longrightarrow> cs' tag \<noteq> None"
    and "truthy op \<Longrightarrow> controller_tag h op = Ok t \<Longrightarrow> t \<notin> set object_proto_names \<Longrightarrow> cs' t \<noteq> None"
proof -
  have "(cs tag \<noteq> None \<longrightarrow> cs' tag \<noteq> None) \<and>
        (truthy op \<longrightarrow> controller_tag h op = Ok t \<longrightarrow> t \<notin> set object_proto_names \<longrightarrow> cs' t \<noteq> None)"
  proof (cases "truthy op")
    case False
    with assms show ?thesis by (simp add: operation_step_def)
  next
    case True
    from operation_step_Ok[OF assms True] obtain tg keep where
      tag: "controller_tag h op = Ok tg" and keep: "keeps h op = Ok keep"
      and nk: "\<not> keep \<Longrightarrow> cs' = ensure_controller cs tg"
      and k: "keep \<Longrightarrow> \<exists>e. make_entry h m p op = Ok e \<and> push_entry (ensure_controller cs tg) tg e = Ok cs'"
      by blast
    show ?thesis
    proof (cases keep)
      case False
      with nk tag show ?thesis by (auto simp: ensure_controller_def)
    next
      case keep_t: True
      with k obtain e where psh: "push_entry (ensure_controller cs tg) tg e = Ok cs'" by blast
      then show ?thesis using tag
        by (auto simp: push_entry_def ensure_controller_def split: option.splits if_splits)
    qed
  qed
  then show "cs tag \<noteq> None \<Longrightarrow> cs' tag \<noteq> None"
    and "truthy op \<Longrightarrow> controller_tag h op = Ok t \<Longrightarrow> t \<notin> set object_proto_names \<Longrightarrow> cs' t \<noteq> None"
    by blast+
qed

lemma foldM_operation_step_dom:
  assumes "foldM (operation_step h p) cs ops = Ok cs'"
  shows "(cs tag \<noteq> None \<longrightarrow> cs' tag \<noteq> None) \<and>
         ((m, op) \<in> set ops \<longrightarrow> truthy op \<longrightarrow> controller_tag h op = Ok tag \<longrightarrow>
            tag \<notin> set object_proto_names \<longrightarrow> cs' tag \<noteq> None)"
  using assms
proof (induction ops arbitrary: cs)
  case Nil
  then show ?case by simp
next
  case (Cons x ops)
  obtain m1 op1 where x: "x = (m1, op1)" by (cases x)
  from Cons.prems have "\<exists>cs1. operation_step h p cs (m1, op1) = Ok cs1 \<and> foldM (operation_step h p) cs1 ops = Ok cs'"
    by (simp add: rbind_Ok_iff x)
  then obtain cs1 where s1: "operation_step h p cs (m1, op1) = Ok cs1"
    and s2: "foldM (operation_step h p) cs1 ops = Ok cs'" by blast
  from Cons.IH[OF s2] operation_step_dom[OF s1]
  show ?case unfolding x by auto
qed

lemma foldM_path_step_dom:
  assumes "foldM (path_step h) cs pes = Ok cs'"
  shows "(cs tag \<noteq> None \<longrightarrow> cs' tag \<noteq> None) \<and>
         ((p, item) \<in> set pes \<longrightarrow> entries h item = Ok ops \<longrightarrow> (m, op) \<in> set ops \<longrightarrow> truthy op \<longrightarrow>
            controller_tag h op = Ok tag \<longrightarrow> tag \<notin> set object_proto_names \<longrightarrow> cs' tag \<noteq> None)"
  using assms
proof (induction pes arbitrary: cs)
  case Nil
  then show ?case by simp
next
  case (Cons x pes)
  obtain p1 item1 where x: "x = (p1, item1)" by (cases x)
  from Cons.prems have "\<exists>cs1. path_step h cs (p1, item1) = Ok cs1 \<and> foldM (path_step h) cs1 pes = Ok cs'"
    by (simp add: rbind_Ok_iff x)
  then obtain cs1 where s0: "path_step h cs (p1, item1) = Ok cs1"
    and s2: "foldM (path_step h) cs1 pes = Ok cs'" by blast
  from s0 have "\<exists>ops1. entries h item1 = Ok ops1 \<and> foldM (operation_step h p1) cs ops1 = Ok cs1"
    by (simp add: path_step_def rbind_Ok_iff)
  then obtain ops1 where e: "entries h item1 = Ok ops1"
    and s1: "foldM (operation_step h p1) cs ops1 = Ok cs1" by blast
  from Cons.IH[OF s2] foldM_operation_step_dom[OF s1, of tag m op] e
  show ?case unfolding x by auto
qed

lemma operation_step_origin:
  assumes "operation_step h p cs (m, op) = Ok cs'" and "cs' tag = Some es" and "e \<in> set es"
  shows "(\<exists>es0. cs tag = Some es0 \<and> e \<in> set es0) \<or>
         (truthy op \<and> controller_tag h op = Ok tag \<and> keeps h op = Ok True)"
proof (cases "truthy op")
  case False
  with assms show ?thesis by (simp add: operation_step_def)
next
  case True
  from operation_step_Ok[OF assms(1) True] obtain tg keep where
    tag: "controller_tag h op = Ok tg" and keep: "keeps h op = Ok keep"
    and nk: "\<not> keep \<Longrightarrow> cs' = ensure_controller cs tg"
    and k: "keep \<Longrightarrow> \<exists>e. make_entry h m p op = Ok e \<and> push_entry (ensure_controller cs tg) tg e = Ok cs'"
    by blast
  show ?thesis
  proof (cases keep)
    case False
    with nk assms(2,3) show ?thesis
      by (auto simp: ensure_controller_def split: if_splits)
  next
    case keep_t: True
    with k obtain e' where psh: "push_entry (ensure_controller cs tg) tg e' = Ok cs'" by blast
    then obtain es1 where es1: "ensure_controller cs tg tg = Some es1"
      and cs': "cs' = (ensure_controller cs tg)(tg \<mapsto> es1 @ [e'])"
      by (auto simp: push_entry_def split: option.splits)
    show ?thesis
    proof (cases "tag = tg")
      case True
      with tag keep keep_t \<open>truthy op\<close> show ?thesis by simp
    next
      case False
      with cs' assms(2,3) show ?thesis
        by (auto simp: ensure_controller_def split: if_splits)
    qed
  qed
qed

lemma foldM_operation_step_origin:
  assumes "foldM (operation_step h p) cs ops = Ok cs'" and "cs' tag = Some es" and "e \<in> set es"
  shows "(\<exists>es0. cs tag = Some es0 \<and> e \<in> set es0) \<or>
         (\<exists>m op. (m, op) \<in> set ops \<and> truthy op \<and> controller_tag h op = Ok tag \<and> keeps h op = Ok True)"
  using assms
proof (induction ops arbitrary: cs)
  case Nil
  then show ?case by simp
next
  case (Cons x ops)
  obtain m1 op1 where x: "x = (m1, op1)" by (cases x)
  from Cons.prems(1) have "\<exists>cs1. operation_step h p cs (m1, op1) = Ok cs1 \<and> foldM (operation_step h p) cs1 ops = Ok cs'"
    by (simp add: rbind_Ok_iff x)
  then obtain cs1 where s1: "operation_step h p cs (m1, op1) = Ok cs1"
    and s2: "foldM (operation_step h p) cs1 ops = Ok cs'" by blast
  from Cons.IH[OF s2 Cons.prems(2,3)] show ?case
  proof
    assume "\<exists>es0. cs1 tag = Some es0 \<and> e \<in> set es0"
    then obtain es0 where "cs1 tag = Some es0" "e \<in> set es0" by blast
    from operation_step_origin[OF s1 this] show ?thesis unfolding x by auto
  next
    assume "\<exists>m op. (m, op) \<in> set ops \<and> truthy op \<and> controller_tag h op = Ok tag \<and> keeps h op = Ok True"
    then show ?thesis by auto
  qed
qed

lemma foldM_path_step_origin:
  assumes "foldM (path_step h) cs pes = Ok cs'" and "cs' tag = Some es" and "e \<in> set es"
  shows "(\<exists>es0. cs tag = Some es0 \<and> e \<in> set es0) \<or> kept_with_tag h pes tag"
  using assms
proof (induction pes arbitrary: cs)
  case Nil
  then show ?case by simp
next
  case (Cons x pes)
  obtain p1 item1 where x: "x = (p1, item1)" by (cases x)
  from Cons.prems(1) have "\<exists>cs1. path_step h cs (p1, item1) = Ok cs1 \<and> foldM (path_step h) cs1 pes = Ok cs'"
    by (simp add: rbind_Ok_iff x)
  then obtain cs1 where s0: "path_step h cs (p1, item1) = Ok cs1"
    and s2: "foldM (path_step h) cs1 pes = Ok cs'" by blast
  from s0 have "\<exists>ops1. entries h item1 = Ok ops1 \<and> foldM (operation_step h p1) cs ops1 = Ok cs1"
    by (simp add: path_step_def rbind_Ok_iff)
  then obtain ops1 where en: "entries h item1 = Ok ops1"
    and s1: "foldM (operation_step h p1) cs ops1 = Ok cs1" by blast
  from Cons.IH[OF s2 Cons.prems(2,3)] show ?case
  proof
    assume "\<exists>es0. cs1 tag = Some es0 \<and> e \<in> set es0"
    then obtain es0 where "cs1 tag = Some es0" "e \<in> set es0" by blast
    from foldM_operation_step_origin[OF s1 this] show ?thesis
    proof
      assume "\<exists>es0. cs tag = Some es0 \<and> e \<in> set es0" then show ?thesis by blast
    next
      assume "\<exists>m op. (m, op) \<in> set ops1 \<and> truthy op \<and> controller_tag h op = Ok tag \<and> keeps h op = Ok True"
      with en have "kept_with_tag h (x # pes) tag" unfolding kept_with_tag_def x
        by (metis list.set_intros(1))
      then show ?thesis by blast
    qed
  next
    assume "kept_with_tag h pes tag"
    then have "kept_with_tag h (x # pes) tag" unfolding kept_with_tag_def
      by (metis list.set_intros(2))
    then show ?thesis by blast
  qed
qed

lemma controller_tag_no_tags:
  assumes "field h v ''tags'' = Ok VUndef"
  shows "controller_tag h v = Ok ''DefaultController''"
  using assms by (simp add: controller_tag_def opt_first_def to_key_def)

lemma transform_fold:
  assumes "transformToControllerFormat h doc = Ok (ir, h')"
    and "field h doc ''paths'' = Ok paths" and "entries h' paths = Ok pes"
  shows "foldM (path_step h') Map.empty pes = Ok (controllers ir)"
proof -
  from transform_Ok[OF assms(1)] obtain paths' pes' where
    "field h doc ''paths'' = Ok paths'" "entries h' paths' = Ok pes'"
    and f: "foldM (path_step h') Map.empty pes' = Ok (controllers ir)" by blast
  with assms(2,3) show ?thesis by simp
qed

lemma has_entry_iff_keeps:
  assumes "foldM (path_step h) Map.empty pes = Ok cs"
    and "distinct (map fst pes)" and "(p, item) \<in> set pes"
    and "entries h item = Ok ops" and "distinct (map fst ops)" and "(m, op) \<in> set ops"
    and "truthy op"
  shows "has_entry cs p m \<longleftrightarrow> keeps h op = Ok True"
proof -
  have "has_entry cs p m \<longleftrightarrow>
     (\<exists>item ops op. (p, item) \<in> set pes \<and> entries h item = Ok ops \<and>
            (m, op) \<in> set ops \<and> truthy op \<and> keeps h op = Ok True)"
    using foldM_path_step_has_entry[OF assms(1), of p m] by simp
  also have "\<dots> \<longleftrightarrow> keeps h op = Ok True"
  proof
    assume "\<exists>item ops op. (p, item) \<in> set pes \<and> entries h item = Ok ops \<and>
            (m, op) \<in> set ops \<and> truthy op \<and> keeps h op = Ok True"
    then obtain item2 ops2 op2 where 2: "(p, item2) \<in> set pes" "entries h item2 = Ok ops2"
      "(m, op2) \<in> set ops2" "keeps h op2 = Ok True" by blast
    from distinct_fst_unique[OF assms(2) assms(3) 2(1)] have "item2 = item" by simp
    with 2(2) assms(4) have "ops2 = ops" by simp
    with distinct_fst_unique[OF assms(5) assms(6)] 2(3) have "op2 = op" by simp
    with 2(4) show "keeps h op = Ok True" by simp
  next
    assume "keeps h op = Ok True"
    with assms(3,4,6,7) show "\<exists>item ops op. (p, item) \<in> set pes \<and> entries h item = Ok ops \<and>
            (m, op) \<in> set ops \<and> truthy op \<and> keeps h op = Ok True" by blast
  qed
  finally show ?thesis .
qed

lemma str_includes_iff: "str_includes s pat \<longleftrightarrow> (\<exists>a b. s = a @ pat @ b)"
proof (induction s)
  case Nil
  then show ?case by auto
next
  case (Cons c cs)
  show ?case
  proof
    assume "str_includes (c # cs) pat"
    then consider "prefix pat (c # cs)" | "str_includes cs pat" by auto
    then show "\<exists>a b. c # cs = a @ pat @ b"
    proof cases
      case 1
      then obtain b where "c # cs = pat @ b" by (auto simp: prefix_def)
      then have "c # cs = [] @ pat @ b" by simp
      then show ?thesis by blast
    next
      case 2
      with Cons.IH obtain a b where "cs = a @ pat @ b" by blast
      then have "c # cs = (c # a) @ pat @ b" by simp
      then show ?thesis by blast
    qed
  next
    assume "\<exists>a b. c # cs = a @ pat @ b"
    then obtain a b where ab: "c # cs = a @ pat @ b" by blast
    show "str_includes (c # cs) pat"
    proof (cases a)
      case Nil
      with ab have "prefix pat (c # cs)" by (simp add: prefix_def)
      then show ?thesis by simp
    next
      case (Cons a0 as)
      with ab have "cs = as @ pat @ b" by simp
      with Cons.IH have "str_includes cs pat" by blast
      then show ?thesis by simp
    qed
  qed
qed

lemma test_heap_eq: "test_heap =
  [Obj [(''title'', VStr ''Test API''), (''version'', VStr ''1.0.0'')],
   Arr [], Arr [VStr ''TestController''],
   Obj [(''operationId'', VStr ''getTest''), (''tags'', VRef 2),
        (''summary'', VStr ''Test endpoint'')],
   Arr [VStr ''TestController''],
   Obj [(''operationId'', VStr ''Controller_postTest''), (''tags'', VRef 4)],
   Obj [(''get'', VRef 3), (''post'', VRef 5)], Obj [(''/test'', VRef 6)],
   Obj [(''type'', VStr ''object'')], Obj [(''Test'', VRef 8)],
   Obj [(''schemas'', VRef 9)], Arr [],
   Obj [(''openapi'', VStr ''3.0.0''), (''info'', VRef 0),
        (''servers'', VRef 1), (''paths'', VRef 7),
        (''components'', VRef 10), (''tags'', VRef 11)]]"
  by (simp add: test_heap_def test_doc_def)

lemma transform_test_doc: "\<exists>ir. transformToControllerFormat test_heap (VRef 12) = Ok (ir, test_heap)"
  by (simp add: test_heap_eq read_defs transform_defs)

lemma pathlevel_heap_eq: "pathlevel_heap =
  [Obj [(''title'', VStr ''T''), (''version'', VStr ''1'')], Arr [], Arr [],
   Obj [(''description'', VStr ''x''), (''parameters'', VRef 2)],
   Obj [(''/a'', VRef 3)], Obj [],
   Obj [(''info'', VRef 0), (''servers'', VRef 1), (''paths'', VRef 4), (''components'', VRef 5)]]"
  by (simp add: pathlevel_heap_def pathlevel_doc_def)

lemma transform_pathlevel_doc:
  "\<exists>ir. transformToControllerFormat pathlevel_heap (VRef 6) = Ok (ir, pathlevel_heap)"
  by (simp add: pathlevel_heap_eq read_defs transform_defs)

text \<open>
  C1.  In the IR that \<open>transformToControllerFormat\<close> returns, some controller's list holds
  a descriptor for the operation at \<open>(p, m)\<close> if and only if the operation's \<open>operationId\<close>
  is a non-empty string that does not contain \<open>Controller_\<close>.  The operation is a truthy
  value \<open>op\<close> under method key \<open>m\<close> of the path item under key \<open>p\<close>; its \<open>operationId\<close> is
  absent or a string, as the interface \<open>OpenAPIOperation\<close> declares.  The tag plays no role:
  an operation whose identifier contains the marker is in no list.
\<close>

theorem operation_listed_iff:
  assumes "transformToControllerFormat h doc = Ok (ir, h')"
    and "field h doc ''paths'' = Ok paths" and "entries h' paths = Ok pes"
    and "distinct (map fst pes)" and "(p, item) \<in> set pes"
    and "entries h' item = Ok ops" and "distinct (map fst ops)" and "(m, op) \<in> set ops"
    and "truthy op" and "field h' op ''operationId'' = Ok opid"
    and "opid = VUndef \<or> (\<exists>s. opid = VStr s)"
  shows "has_entry (controllers ir) p m \<longleftrightarrow>
         (\<exists>s. opid = VStr s \<and> s \<noteq> [] \<and> \<not> (\<exists>a b. s = a @ ''Controller_'' @ b))"
proof -
  have "has_entry (controllers ir) p m \<longleftrightarrow> keeps h' op = Ok True"
    by (rule has_entry_iff_keeps[OF transform_fold[OF assms(1-3)] assms(4-9)])
  also have "\<dots> \<longleftrightarrow> (\<exists>s. opid = VStr s \<and> s \<noteq> [] \<and> \<not> str_includes s ''Controller_'')"
    by (rule keeps_typed[OF assms(10,11)])
  finally show ?thesis by (simp add: str_includes_iff)
qed

theorem operation_listed_iff_witness:
  "\<exists>ir. transformToControllerFormat test_heap (VRef 12) = Ok (ir, test_heap) \<and>
     has_entry (controllers ir) ''/test'' ''get'' \<and> \<not> has_entry (controllers ir) ''/test'' ''post''"
proof -
  from transform_test_doc obtain ir where
    t: "transformToControllerFormat test_heap (VRef 12) = Ok (ir, test_heap)" by blast
  have p: "field test_heap (VRef 12) ''paths'' = Ok (VRef 7)"
    by (simp add: test_heap_eq read_defs)
  have e1: "entries test_heap (VRef 7) = Ok [(''/test'', VRef 6)]"
    by (simp add: test_heap_eq read_defs)
  have e2: "entries test_heap (VRef 6) = Ok [(''get'', VRef 3), (''post'', VRef 5)]"
    by (simp add: test_heap_eq read_defs)
  have o1: "field test_heap (VRef 3) ''operationId'' = Ok (VStr ''getTest'')"
    by (simp add: test_heap_eq read_defs)
  have o2: "field test_heap (VRef 5) ''operationId'' = Ok (VStr ''Controller_postTest'')"
    by (simp add: test_heap_eq read_defs)
  have n1: "\<not> (\<exists>a b. ''getTest'' = a @ ''Controller_'' @ b)"
    unfolding str_includes_iff[symmetric] by simp
  have n2: "\<exists>a b. ''Controller_postTest'' = a @ ''Controller_'' @ b"
    unfolding str_includes_iff[symmetric] by simp
  have "has_entry (controllers ir) ''/test'' ''get''"
    using operation_listed_iff[OF t p e1 _ _ e2 _ _ _ o1, of "''/test''" "''get''"] n1 by simp
  moreover have "\<not> has_entry (controllers ir) ''/test'' ''post''"
    using operation_listed_iff[OF t p e1 _ _ e2 _ _ _ o2, of "''/test''" "''post''"] n2 by simp
  ultimately show ?thesis using t by blast
qed

lemma indexed_first: "map_of (indexed (x # xs)) ''0'' = Some x"
proof -
  have "[0..<length (x # xs)] = 0 # [Suc 0..<length (x # xs)]" by (rule upt_conv_Cons) simp
  then show ?thesis unfolding indexed_def by (simp del: upt_Suc)
qed

lemma indexed_Nil: "indexed [] = []"
  by (simp add: indexed_def)

lemma controller_tag_first:
  assumes "field h v ''tags'' = Ok (VRef a)" and "cell_at h a = Some (Arr (VStr s # rest))"
    and "s \<noteq> []"
  shows "controller_tag h v = Ok s"
  using assms
  by (simp add: controller_tag_def opt_first_def getp_def is_index_def to_key_def
      indexed_first indexed_Nil)

lemma controller_tag_empty_tags:
  assumes "field h v ''tags'' = Ok (VRef a)" and "cell_at h a = Some (Arr [])"
  shows "controller_tag h v = Ok ''DefaultController''"
  using assms
  by (simp add: controller_tag_def opt_first_def getp_def is_index_def to_key_def
      indexed_first indexed_Nil)

lemma ensure_controller_Some:
  "cs tag = Some es \<Longrightarrow> ensure_controller cs tg tag = Some es"
  by (cases "tag = tg") (simp_all add: ensure_controller_def)

lemma ensure_controller_proto:
  "cs tag = None \<Longrightarrow> tag \<in> set object_proto_names \<Longrightarrow> ensure_controller cs tg tag = None"
  by (cases "tag = tg") (simp_all add: ensure_controller_def)

lemma push_entry_Ok:
  assumes "push_entry cs tag e = Ok cs'"
  shows "\<exists>es. cs tag = Some es \<and> cs' = cs(tag \<mapsto> es @ [e])"
  using assms by (cases "cs tag") (simp_all add: push_entry_def)

lemma operation_step_nonempty:
  assumes "operation_step h p cs (m, op) = Ok cs'" and "cs tag = Some es" and "es \<noteq> []"
  shows "\<exists>es'. cs' tag = Some es' \<and> es' \<noteq> []"
proof (cases "truthy op")
  case False
  with assms show ?thesis by (simp add: operation_step_def)
next
  case True
  from operation_step_Ok[OF assms(1) True] obtain tg keep where
    tg: "controller_tag h op = Ok tg" and keep: "keeps h op = Ok keep"
    and nk: "\<not> keep \<Longrightarrow> cs' = ensure_controller cs tg"
    and k: "keep \<Longrightarrow> \<exists>e. make_entry h m p op = Ok e \<and> push_entry (ensure_controller cs tg) tg e = Ok cs'"
    by blast
  from assms(2) have en: "ensure_controller cs tg tag = Some es" by (rule ensure_controller_Some)
  show ?thesis
  proof (cases keep)
    case False
    with nk en assms(3) show ?thesis by simp
  next
    case keep_t: True
    with k obtain e where "push_entry (ensure_controller cs tg) tg e = Ok cs'" by blast
    from push_entry_Ok[OF this] obtain es1 where
      es1: "ensure_controller cs tg tg = Some es1"
      and cs': "cs' = (ensure_controller cs tg)(tg \<mapsto> es1 @ [e])" by blast
    show ?thesis
    proof (cases "tag = tg")
      case True
      with cs' show ?thesis by simp
    next
      case False
      with cs' en assms(3) show ?thesis by simp
    qed
  qed
qed

lemma operation_step_kept:
  assumes "operation_step h p cs (m, op) = Ok cs'" and "truthy op"
    and "controller_tag h op = Ok tag" and "keeps h op = Ok True"
  shows "\<exists>es'. cs' tag = Some es' \<and> es' \<noteq> []"
proof -
  from operation_step_Ok[OF assms(1,2)] obtain tg keep where
    t: "controller_tag h op = Ok tg" "keeps h op = Ok keep"
    and nk: "\<not> keep \<Longrightarrow> cs' = ensure_controller cs tg"
    and k: "keep \<Longrightarrow> \<exists>e. make_entry h m p op = Ok e \<and> push_entry (ensure_controller cs tg) tg e = Ok cs'"
    by blast
  from t assms(3,4) have "tg = tag" "keep" by simp_all
  with k obtain e where "push_entry (ensure_controller cs tag) tag e = Ok cs'" by blast
  from push_entry_Ok[OF this] show ?thesis by auto
qed

lemma foldM_operation_step_nonempty:
  assumes "foldM (operation_step h p) cs ops = Ok cs'"
  shows "(\<exists>es. cs tag = Some es \<and> es \<noteq> []) \<or>
         (\<exists>m op. (m, op) \<in> set ops \<and> truthy op \<and> controller_tag h op = Ok tag \<and> keeps h op = Ok True)
         \<Longrightarrow> \<exists>es'. cs' tag = Some es' \<and> es' \<noteq> []"
  using assms
proof (induction ops arbitrary: cs)
  case Nil
  then show ?case by simp
next
  case (Cons x ops)
  obtain m1 op1 where x: "x = (m1, op1)" by (cases x)
  from Cons.prems(2) have "\<exists>cs1. operation_step h p cs (m1, op1) = Ok cs1 \<and> foldM (operation_step h p) cs1 ops = Ok cs'"
    by (simp add: rbind_Ok_iff x)
  then obtain cs1 where s1: "operation_step h p cs (m1, op1) = Ok cs1"
    and s2: "foldM (operation_step h p) cs1 ops = Ok cs'" by blast
  from Cons.prems(1) consider
    (a) es where "cs tag = Some es" "es \<noteq> []"
    | (b) "truthy op1" "controller_tag h op1 = Ok tag" "keeps h op1 = Ok True"
    | (c) "\<exists>m op. (m, op) \<in> set ops \<and> truthy op \<and> controller_tag h op = Ok tag \<and> keeps h op = Ok True"
    unfolding x by auto
  then show ?case
  proof cases
    case a
    from operation_step_nonempty[OF s1 a] Cons.IH[OF _ s2] show ?thesis by blast
  next
    case b
    from operation_step_kept[OF s1 b] Cons.IH[OF _ s2] show ?thesis by blast
  next
    case c
    with Cons.IH[OF _ s2] show ?thesis by blast
  qed
qed

lemma foldM_path_step_nonempty:
  assumes "foldM (path_step h) cs pes = Ok cs'"
  shows "(\<exists>es. cs tag = Some es \<and> es \<noteq> []) \<or> kept_with_tag h pes tag
         \<Longrightarrow> \<exists>es'. cs' tag = Some es' \<and> es' \<noteq> []"
  using assms
proof (induction pes arbitrary: cs)
  case Nil
  then show ?case by (simp add: kept_with_tag_def)
next
  case (Cons x pes)
  obtain p1 item1 where x: "x = (p1, item1)" by (cases x)
  from Cons.prems(2) have "\<exists>cs1. path_step h cs (p1, item1) = Ok cs1 \<and> foldM (path_step h) cs1 pes = Ok cs'"
    by (simp add: rbind_Ok_iff x)
  then obtain cs1 where s0: "path_step h cs (p1, item1) = Ok cs1"
    and s2: "foldM (path_step h) cs1 pes = Ok cs'" by blast
  from s0 have "\<exists>ops1. entries h item1 = Ok ops1 \<and> foldM (operation_step h p1) cs ops1 = Ok cs1"
    by (simp add: path_step_def rbind_Ok_iff)
  then obtain ops1 where en: "entries h item1 = Ok ops1"
    and s1: "foldM (operation_step h p1) cs ops1 = Ok cs1" by blast
  have "(\<exists>m op. (m, op) \<in> set ops1 \<and> truthy op \<and> controller_tag h op = Ok tag \<and> keeps h op = Ok True)
        \<or> kept_with_tag h pes tag" if "kept_with_tag h (x # pes) tag"
  proof -
    from that obtain p item ops m op where k: "(p, item) \<in> set (x # pes)" "entries h item = Ok ops"
      "(m, op) \<in> set ops" "truthy op" "controller_tag h op = Ok tag" "keeps h op = Ok True"
      unfolding kept_with_tag_def by blast
    show ?thesis
    proof (cases "(p, item) = x")
      case True
      with k(2) en x have "ops = ops1" by simp
      with k show ?thesis by blast
    next
      case False
      with k(1) have "(p, item) \<in> set pes" by simp
      with k show ?thesis unfolding kept_with_tag_def by blast
    qed
  qed
  with Cons.prems(1) consider
    (a) "\<exists>es. cs tag = Some es \<and> es \<noteq> []"
    | (b) "\<exists>m op. (m, op) \<in> set ops1 \<and> truthy op \<and> controller_tag h op = Ok tag \<and> keeps h op = Ok True"
    | (c) "kept_with_tag h pes tag"
    by blast
  then show ?case
  proof cases
    case a
    from foldM_operation_step_nonempty[OF s1, of tag] a Cons.IH[OF _ s2] show ?thesis by blast
  next
    case b
    from foldM_operation_step_nonempty[OF s1, of tag] b Cons.IH[OF _ s2] show ?thesis by blast
  next
    case c
    with Cons.IH[OF _ s2] show ?thesis by blast
  qed
qed

lemma operation_step_proto:
  assumes "operation_step h p cs (m, op) = Ok cs'" and "cs tag = None"
    and "tag \<in> set object_proto_names"
  shows "cs' tag = None"
proof (cases "truthy op")
  case False
  with assms show ?thesis by (simp add: operation_step_def)
next
  case True
  from operation_step_Ok[OF assms(1) True] obtain tg keep where
    tg: "controller_tag h op = Ok tg" and keep: "keeps h op = Ok keep"
    and nk: "\<not> keep \<Longrightarrow> cs' = ensure_controller cs tg"
    and k: "keep \<Longrightarrow> \<exists>e. make_entry h m p op = Ok e \<and> push_entry (ensure_controller cs tg) tg e = Ok cs'"
    by blast
  from assms(2,3) have en: "ensure_controller cs tg tag = None" by (rule ensure_controller_proto)
  show ?thesis
  proof (cases keep)
    case False
    with nk en show ?thesis by simp
  next
    case keep_t: True
    with k obtain e where "push_entry (ensure_controller cs tg) tg e = Ok cs'" by blast
    from push_entry_Ok[OF this] obtain es1 where
      es1: "ensure_controller cs tg tg = Some es1"
      and cs': "cs' = (ensure_controller cs tg)(tg \<mapsto> es1 @ [e])" by blast
    from es1 en have "tag \<noteq> tg" by auto
    with cs' en show ?thesis by simp
  qed
qed

lemma foldM_operation_step_proto:
  assumes "foldM (operation_step h p) cs ops = Ok cs'" and "cs tag = None"
    and "tag \<in> set object_proto_names"
  shows "cs' tag = None"
  using assms(1,2)
proof (induction ops arbitrary: cs)
  case Nil
  then show ?case by simp
next
  case (Cons x ops)
  obtain m1 op1 where x: "x = (m1, op1)" by (cases x)
  from Cons.prems(1) have "\<exists>cs1. operation_step h p cs (m1, op1) = Ok cs1 \<and> foldM (operation_step h p) cs1 ops = Ok cs'"
    by (simp add: rbind_Ok_iff x)
  then obtain cs1 where s1: "operation_step h p cs (m1, op1) = Ok cs1"
    and s2: "foldM (operation_step h p) cs1 ops = Ok cs'" by blast
  from Cons.IH[OF s2 operation_step_proto[OF s1 Cons.prems(2) assms(3)]] show ?case .
qed

lemma foldM_path_step_proto:
  assumes "foldM (path_step h) cs pes = Ok cs'" and "cs tag = None"
    and "tag \<in> set object_proto_names"
  shows "cs' tag = None"
  using assms(1,2)
proof (induction pes arbitrary: cs)
  case Nil
  then show ?case by simp
next
  case (Cons x pes)
  obtain p1 item1 where x: "x = (p1, item1)" by (cases x)
  from Cons.prems(1) have "\<exists>cs1. path_step h cs (p1, item1) = Ok cs1 \<and> foldM (path_step h) cs1 pes = Ok cs'"
    by (simp add: rbind_Ok_iff x)
  then obtain cs1 where s0: "path_step h cs (p1, item1) = Ok cs1"
    and s2: "foldM (path_step h) cs1 pes = Ok cs'" by blast
  from s0 have "\<exists>ops1. entries h item1 = Ok ops1 \<and> foldM (operation_step h p1) cs ops1 = Ok cs1"
    by (simp add: path_step_def rbind_Ok_iff)
  then obtain ops1 where s1: "foldM (operation_step h p1) cs ops1 = Ok cs1" by blast
  from Cons.IH[OF s2 foldM_operation_step_proto[OF s1 Cons.prems(2) assms(3)]] show ?case .
qed

text \<open>
  Against C10: in \<open>shared_default_doc\<close> the description spawns \<open>DefaultController\<close>, whose
  list is not empty (it holds the untagged operation of the same path item); in
  \<open>proto_tag_doc\<close> the tagged value spawns no controller at all.
\<close>

theorem spawned_list_not_empty:
  "(case transform_tree shared_default_doc of
      Ok x \<Rightarrow> (case controllers (fst x) ''DefaultController'' of
                 Some es \<Rightarrow> length es = 1 | None \<Rightarrow> False)
    | _ \<Rightarrow> False) \<and>
   (case transform_tree proto_tag_doc of
      Ok x \<Rightarrow> controllers (fst x) ''constructor'' = None \<and>
              controllers (fst x) ''DefaultController'' = None
    | _ \<Rightarrow> False)"
  by code_simp

text \<open>
  C10, amended.  Every key of a path item is treated as a method.  Let \<open>v\<close> be a truthy
  value under a key \<open>k\<close> of a path item that has no \<open>operationId\<close> (a path-level \<open>parameters\<close>
  array, a \<open>description\<close> string), and let \<open>nm\<close> be its controller name: \<open>DefaultController\<close>
  when it has no \<open>tags\<close> or an empty \<open>tags\<close> array, its first tag when that is a non-empty
  string.  The value contributes no descriptor.  When \<open>nm\<close> is not a property name of
  \<open>Object.prototype\<close> the IR has a controller \<open>nm\<close>, and its list is empty exactly when no
  kept operation of the document has this controller name; otherwise the IR has no
  controller \<open>nm\<close>.
\<close>

theorem non_operation_spawns_controller:
  assumes "transformToControllerFormat h doc = Ok (ir, h')"
    and "field h doc ''paths'' = Ok paths" and "entries h' paths = Ok pes"
    and "distinct (map fst pes)" and "(p, item) \<in> set pes"
    and "entries h' item = Ok ops" and "distinct (map fst ops)" and "(k, v) \<in> set ops"
    and "truthy v" and "field h' v ''operationId'' = Ok VUndef"
    and "field h' v ''tags'' = Ok tg"
    and "tg = VUndef \<and> nm = ''DefaultController'' \<or>
         (\<exists>a. tg = VRef a \<and> cell_at h' a = Some (Arr []) \<and> nm = ''DefaultController'') \<or>
         (\<exists>a rest. tg = VRef a \<and> cell_at h' a = Some (Arr (VStr nm # rest)) \<and> nm \<noteq> [])"
  shows "\<not> has_entry (controllers ir) p k \<and>
         (nm \<notin> set object_proto_names \<longrightarrow>
            (\<exists>es. controllers ir nm = Some es \<and> (es = [] \<longleftrightarrow> \<not> kept_with_tag h' pes nm))) \<and>
         (nm \<in> set object_proto_names \<longrightarrow> controllers ir nm = None)"
proof -
  note f = transform_fold[OF assms(1-3)]
  have ct: "controller_tag h' v = Ok nm"
    using assms(11,12) controller_tag_no_tags[of h' v] controller_tag_first[of h' v _ nm]
      controller_tag_empty_tags[of h' v]
    by blast
  have "keeps h' v = Ok False" using assms(10) by (simp add: keeps_def)
  then have 1: "\<not> has_entry (controllers ir) p k"
    using has_entry_iff_keeps[OF f assms(4-9)] by simp
  have 2: "\<exists>es. controllers ir nm = Some es \<and> (es = [] \<longleftrightarrow> \<not> kept_with_tag h' pes nm)"
    if np: "nm \<notin> set object_proto_names"
  proof -
    from foldM_path_step_dom[OF f, of nm p item ops k v] assms(5,6,8,9) ct np
    obtain es where es: "controllers ir nm = Some es" by auto
    have "kept_with_tag h' pes nm" if "es \<noteq> []"
    proof -
      from that obtain e where "e \<in> set es" by (cases es) auto
      from foldM_path_step_origin[OF f es this] show ?thesis by simp
    qed
    moreover have "es \<noteq> []" if "kept_with_tag h' pes nm"
      using foldM_path_step_nonempty[OF f, of nm] that es by auto
    ultimately show ?thesis using es by blast
  qed
  have 3: "controllers ir nm = None" if "nm \<in> set object_proto_names"
    by (rule foldM_path_step_proto[OF f _ that]) simp
  from 1 2 3 show ?thesis by blast
qed

theorem non_operation_spawns_controller_witness:
  "\<exists>ir. transformToControllerFormat pathlevel_heap (VRef 6) = Ok (ir, pathlevel_heap) \<and>
     controllers ir ''DefaultController'' = Some [] \<and>
     \<not> has_entry (controllers ir) ''/a'' ''description''"
proof -
  from transform_pathlevel_doc obtain ir where
    t: "transformToControllerFormat pathlevel_heap (VRef 6) = Ok (ir, pathlevel_heap)" by blast
  have p: "field pathlevel_heap (VRef 6) ''paths'' = Ok (VRef 4)"
    by (simp add: pathlevel_heap_eq read_defs)
  have e1: "entries pathlevel_heap (VRef 4) = Ok [(''/a'', VRef 3)]"
    by (simp add: pathlevel_heap_eq read_defs)
  have e2: "entries pathlevel_heap (VRef 3) = Ok [(''description'', VStr ''x''), (''parameters'', VRef 2)]"
    by (simp add: pathlevel_heap_eq read_defs)
  have o: "field pathlevel_heap (VStr ''x'') ''operationId'' = Ok VUndef"
    "field pathlevel_heap (VStr ''x'') ''tags'' = Ok VUndef"
    by (simp_all add: read_defs)
  have nk: "\<not> kept_with_tag pathlevel_heap [(''/a'', VRef 3)] ''DefaultController''"
    by (auto simp: kept_with_tag_def e2 keeps_def pathlevel_heap_eq read_defs)
  from non_operation_spawns_controller[OF t p e1 _ _ e2 _ _ _ o,
      of "''/a''" "''description''" "''DefaultController''"] nk
  have "controllers ir ''DefaultController'' = Some [] \<and>
        \<not> has_entry (controllers ir) ''/a'' ''description''"
    by (auto simp: object_proto_names_def)
  with t show ?thesis by blast
qed

section \<open>Properties of normalization\<close>

lemma swagger_servers_typed:
  assumes "string_or_absent (jget doc ''host'')" and "string_or_absent (jget doc ''basePath'')"
    and "strings_or_absent (jget doc ''schemes'')"
  shows "swagger_servers doc = Ok
     (if nonempty_string (jget doc ''host'') then
        JArr [JObj [(''url'', JStr (
          (if nonempty_string (jfirst (jget doc ''schemes''))
           then string_of (jfirst (jget doc ''schemes'')) else ''https'')
          @ ''://'' @ string_of (jget doc ''host'') @ string_of (jget doc ''basePath'')))]]
      else JArr [])"
proof (cases "jget doc ''host''")
  case (JStr host)
  show ?thesis
  proof (cases "host = []")
    case True
    with JStr show ?thesis by (simp add: swagger_servers_def nonempty_string_def)
  next
    case False
    have s: "jstring (jor (jfirst (jget doc ''schemes'')) (JStr ''https'')) =
          Ok (if nonempty_string (jfirst (jget doc ''schemes''))
              then string_of (jfirst (jget doc ''schemes'')) else ''https'')"
      using assms(3)
      by (auto simp: strings_or_absent_def jfirst_def jor_def nonempty_string_def string_of_def
          split: json.splits list.splits)
    have b: "jstring (jor (jget doc ''basePath'') (JStr [])) = Ok (string_of (jget doc ''basePath''))"
      using assms(2) by (auto simp: string_or_absent_def jor_def string_of_def split: json.splits)
    from JStr False show ?thesis
      by (simp add: swagger_servers_def s b nonempty_string_def string_of_def)
  qed
qed (use assms(1) in \<open>simp_all add: string_or_absent_def swagger_servers_def nonempty_string_def\<close>)

lemma spec_servers_agree:
  assumes "string_or_absent (jget doc ''host'')" and "strings_or_absent (jget doc ''schemes'')"
    and "jget doc ''host'' \<noteq> JStr []" and "jfirst (jget doc ''schemes'') \<noteq> JStr []"
  shows "spec_servers doc =
     (if nonempty_string (jget doc ''host'') then
        JArr [JObj [(''url'', JStr (
          (if nonempty_string (jfirst (jget doc ''schemes''))
           then string_of (jfirst (jget doc ''schemes'')) else ''https'')
          @ ''://'' @ string_of (jget doc ''host'') @ string_of (jget doc ''basePath'')))]]
      else JArr [])"
proof -
  have s: "spec_scheme doc =
      (if nonempty_string (jfirst (jget doc ''schemes''))
       then string_of (jfirst (jget doc ''schemes'')) else ''https'')"
    using assms(2,4)
    by (auto simp: strings_or_absent_def jfirst_def spec_scheme_def nonempty_string_def string_of_def
        split: json.splits list.splits)
  from assms(1,3) show ?thesis
    by (auto simp: string_or_absent_def spec_servers_def s nonempty_string_def string_of_def
        split: json.splits)
qed

text \<open>
  Against C4: for a document whose first scheme is the empty string the code builds the
  URL with \<open>https\<close>, where \<open>schemes[0] ?? "https"\<close> keeps the empty scheme; and for a document
  whose \<open>host\<close> is present but empty the code returns no server.
\<close>

theorem swagger_servers_differ:
  "(case normalizeDoc empty_scheme_doc of
      Ok nd \<Rightarrow> jget nd ''servers'' = JArr [JObj [(''url'', JStr ''https://api.example.com'')]]
    | _ \<Rightarrow> False) \<and>
   spec_servers empty_scheme_doc = JArr [JObj [(''url'', JStr ''://api.example.com'')]] \<and>
   (case normalizeDoc empty_host_doc of Ok nd \<Rightarrow> jget nd ''servers'' = JArr [] | _ \<Rightarrow> False) \<and>
   spec_servers empty_host_doc = JArr [JObj [(''url'', JStr ''http:///v1'')]]"
  by code_simp

text \<open>
  C4, amended.  For a Swagger 2.0 document (an object with a \<open>swagger\<close> field, the fields
  \<open>host\<close>, \<open>basePath\<close> and \<open>schemes\<close> typed as the interface declares) \<open>normalizeDoc\<close> returns a
  document whose \<open>openapi\<close> is \<open>3.0.0\<close> when \<open>swagger\<close> is \<open>2.0\<close> and the value of \<open>swagger\<close>
  otherwise; whose \<open>servers\<close> hold one URL when \<open>host\<close> is a non-empty string, built from the
  first scheme (\<open>https\<close> when it is missing or empty), \<open>://\<close>, the host and the base path, and
  are empty when \<open>host\<close> is missing or empty; and whose \<open>components\<close> map \<open>definitions\<close>,
  \<open>parameters\<close>, \<open>responses\<close> and \<open>securityDefinitions\<close> to \<open>schemas\<close>, \<open>parameters\<close>, \<open>responses\<close>
  and \<open>securitySchemes\<close> (an empty object for a missing one).  The servers are those of the
  specification whenever neither the host nor the first scheme is the empty string.
\<close>

theorem normalize_swagger2:
  assumes "jget doc ''swagger'' = sw" and "has_key doc ''swagger'' = Ok True"
    and "string_or_absent (jget doc ''host'')" and "string_or_absent (jget doc ''basePath'')"
    and "strings_or_absent (jget doc ''schemes'')"
  shows "\<exists>nd comps. normalizeDoc doc = Ok nd \<and>
     jget nd ''openapi'' = (if sw = JStr ''2.0'' then JStr ''3.0.0'' else sw) \<and>
     jget nd ''servers'' =
       (if nonempty_string (jget doc ''host'') then
          JArr [JObj [(''url'', JStr (
            (if nonempty_string (jfirst (jget doc ''schemes''))
             then string_of (jfirst (jget doc ''schemes'')) else ''https'')
            @ ''://'' @ string_of (jget doc ''host'') @ string_of (jget doc ''basePath'')))]]
        else JArr []) \<and>
     (jget doc ''host'' \<noteq> JStr [] \<and> jfirst (jget doc ''schemes'') \<noteq> JStr [] \<longrightarrow>
        jget nd ''servers'' = spec_servers doc) \<and>
     jget nd ''components'' = comps \<and>
     jget comps ''schemas'' =
       (if jtruthy (jget doc ''definitions'') then jget doc ''definitions'' else JObj []) \<and>
     jget comps ''parameters'' =
       (if jtruthy (jget doc ''parameters'') then jget doc ''parameters'' else JObj []) \<and>
     jget comps ''responses'' =
       (if jtruthy (jget doc ''responses'') then jget doc ''responses'' else JObj []) \<and>
     jget comps ''securitySchemes'' =
       (if jtruthy (jget doc ''securityDefinitions'') then jget doc ''securityDefinitions'' else JObj [])"
proof -
  note sv = swagger_servers_typed[OF assms(3-5)]
  have ag: "jget doc ''host'' \<noteq> JStr [] \<and> jfirst (jget doc ''schemes'') \<noteq> JStr [] \<longrightarrow>
      spec_servers doc =
       (if nonempty_string (jget doc ''host'') then
          JArr [JObj [(''url'', JStr (
            (if nonempty_string (jfirst (jget doc ''schemes''))
             then string_of (jfirst (jget doc ''schemes'')) else ''https'')
            @ ''://'' @ string_of (jget doc ''host'') @ string_of (jget doc ''basePath'')))]]
        else JArr [])"
    using spec_servers_agree[OF assms(3,5)] by blast
  from assms(1,2) have nd: "normalizeDoc doc = Ok (JObj
         [(''openapi'', if sw = JStr ''2.0'' then JStr ''3.0.0'' else sw),
          (''info'', jget doc ''info''),
          (''servers'',
             (if nonempty_string (jget doc ''host'') then
                JArr [JObj [(''url'', JStr (
                  (if nonempty_string (jfirst (jget doc ''schemes''))
                   then string_of (jfirst (jget doc ''schemes'')) else ''https'')
                  @ ''://'' @ string_of (jget doc ''host'') @ string_of (jget doc ''basePath'')))]]
              else JArr [])),
          (''paths'', jget doc ''paths''),
          (''components'', JObj
             [(''schemas'', jor (jget doc ''definitions'') (JObj [])),
              (''parameters'', jor (jget doc ''parameters'') (JObj [])),
              (''responses'', jor (jget doc ''responses'') (JObj [])),
              (''securitySchemes'', jor (jget doc ''securityDefinitions'') (JObj []))]),
          (''tags'', jor (jget doc ''tags'') (JArr []))])"
    by (simp add: normalizeDoc_def sv)
  show ?thesis
    unfolding nd using ag by (simp add: jget_def jor_def)
qed

theorem normalize_swagger2_witness:
  "\<exists>nd. normalizeDoc swagger_doc = Ok nd \<and>
     jget nd ''openapi'' = JStr ''3.0.0'' \<and>
     jget nd ''servers'' = JArr [JObj [(''url'', JStr ''https://api.example.com'')]] \<and>
     jget nd ''servers'' = spec_servers swagger_doc \<and>
     jget (jget nd ''components'') ''schemas'' = JObj [(''Pet'', JObj [(''type'', JStr ''object'')])] \<and>
     jget (jget nd ''components'') ''parameters'' = JObj []"
proof -
  have 1: "has_key swagger_doc ''swagger'' = Ok True"
    by (simp add: swagger_doc_def has_key_def)
  have 2: "string_or_absent (jget swagger_doc ''host'')"
    "string_or_absent (jget swagger_doc ''basePath'')"
    "strings_or_absent (jget swagger_doc ''schemes'')"
    by (simp_all add: swagger_doc_def jget_def string_or_absent_def strings_or_absent_def)
  have 4: "jget swagger_doc ''swagger'' = JStr ''2.0''"
    "jget swagger_doc ''definitions'' = JObj [(''Pet'', JObj [(''type'', JStr ''object'')])]"
    "jget swagger_doc ''parameters'' = JUndef"
    "jget swagger_doc ''host'' = JStr ''api.example.com''"
    "jget swagger_doc ''basePath'' = JStr []"
    "jfirst (jget swagger_doc ''schemes'') = JStr ''https''"
    by (simp_all add: swagger_doc_def jget_def jfirst_def)
  from normalize_swagger2[OF refl 1 2] show ?thesis
    unfolding 4 by (auto simp: nonempty_string_def string_of_def)
qed

section \<open>Properties of the loader\<close>

text \<open>
  C9.  A locator that is an absolute path (not a URL) is never read from the file
  system: the loader decodes the path string itself as the document text.  Only a
  relative path without inline markers is resolved and read, and an unreadable file
  then fails with a \<open>ValidationError\<close>.
\<close>

theorem absolute_path_not_read:
  assumes "isAbsolute e input" and "\<not> isValidUrl e input"
  shows "load_content e input = Ok input \<and>
         parseToDocObject (e\<lparr>readFileSync := files\<rparr>) input = parseToDocObject e input"
  using assms
  by (auto simp: load_content_def parseToDocObject_def processContent_def split: option.splits)

theorem absolute_path_not_read_witness:
  "load_content posix_env ''/tmp/api.json'' = Ok ''/tmp/api.json'' \<and>
   parseToDocObject posix_env ''/tmp/api.json'' = Throw ValidationError \<and>
   parseToDocObject posix_env ''api.json'' = Ok (JObj [(''openapi'', JStr ''3.0.0'')]) \<and>
   parseToDocObject posix_env ''missing.json'' = Throw ValidationError"
proof -
  have a: "isAbsolute posix_env ''/tmp/api.json''" "\<not> isValidUrl posix_env ''/tmp/api.json''"
    by (simp_all add: posix_env_def)
  have 1: "load_content posix_env ''/tmp/api.json'' = Ok ''/tmp/api.json''"
    using absolute_path_not_read[OF a] by simp
  have pc1: "processContent posix_env ''/tmp/api.json'' = Ok (JStr ''/tmp/api.json'')"
    by (simp add: processContent_def posix_env_def file_text_def)
  have 2: "parseToDocObject posix_env ''/tmp/api.json'' = Throw ValidationError"
    by (simp add: parseToDocObject_def 1 pc1 validateBasicStructure_def)
  have l3: "load_content posix_env ''api.json'' = Ok file_text"
    by (simp add: load_content_def looks_inline_def posix_env_def)
  have pc3: "processContent posix_env file_text = Ok (JObj [(''openapi'', JStr ''3.0.0'')])"
    by (simp add: processContent_def posix_env_def)
  have 3: "parseToDocObject posix_env ''api.json'' = Ok (JObj [(''openapi'', JStr ''3.0.0'')])"
    by (simp add: parseToDocObject_def l3 pc3 validateBasicStructure_def)
  have l4: "load_content posix_env ''missing.json'' = Throw ValidationError"
    by (simp add: load_content_def looks_inline_def posix_env_def)
  have 4: "parseToDocObject posix_env ''missing.json'' = Throw ValidationError"
    by (simp add: parseToDocObject_def l4)
  from 1 2 3 4 show ?thesis by simp
qed

section \<open>Properties of reference resolution\<close>

lemma split_on_nonempty [simp]: "split_on c s \<noteq> []"
  by (induction s) (auto split: list.splits)




lemma getRefInfo_other:
  "''parameters'' \<notin> set (split_on (CHR ''/'') ref) \<Longrightarrow> ''schemas'' \<notin> set (split_on (CHR ''/'') ref) \<Longrightarrow>
   getRefInfo ref = (last (split_on (CHR ''/'') ref), ''other'')"
  by (simp add: getRefInfo_def Let_def)

lemma resolveRef_pointer:
  assumes "cell_at h a = Some (Obj fs)" and "map_of fs ''$ref'' = Some r" and "truthy r"
  shows "resolveRef (Suc n) resolved h (VRef a) = resolve_pointer resolved h r"
  using assms by (simp add: field_def)

lemma field_node:
  assumes "t \<noteq> VUndef" and "t \<noteq> VNull"
  shows "field h t k = Ok (fld h t k) \<or> field h t k = Throw Unmodelled"
  using assms by (auto simp: field_def fld_def split: val.splits option.splits cell.splits)




lemma closed_cell:
  assumes "closed n0 h" and "n0 \<le> a" and "a < length h"
  shows "cok n0 h (h ! a)"
proof -
  from assms(2,3) have 1: "drop n0 h ! (a - n0) = h ! a" by simp
  from assms(2,3) have "a - n0 < length (drop n0 h)" by simp
  from nth_mem[OF this] 1 have "h ! a \<in> set (drop n0 h)" by simp
  with assms(1) show ?thesis by (auto simp: closed_def list_all_iff)
qed

lemma field_vok:
  assumes "closed n0 h" and "vok n0 h v" and "field h v k = Ok x"
  shows "vok n0 h x"
proof (cases v)
  case (VRef a)
  with assms(2) have a: "n0 \<le> a" "a < length h" by (simp_all add: vok_def)
  from closed_cell[OF assms(1) a] have c: "cok n0 h (h ! a)" .
  show ?thesis
  proof (cases "h ! a")
    case (Obj fs)
    show ?thesis
    proof (cases "map_of fs k")
      case None
      with assms(3) VRef a Obj show ?thesis by (simp add: field_def cell_at_def vok_def)
    next
      case (Some y)
      then have "(k, y) \<in> set fs" by (rule map_of_SomeD)
      with c Obj have "vok n0 h y" by (auto simp: cok_def list_all_iff)
      with assms(3) VRef a Obj Some show ?thesis by (simp add: field_def cell_at_def)
    qed
  next
    case (Arr xs)
    with assms(3) VRef a show ?thesis by (simp add: field_def cell_at_def vok_def)
  qed
qed (use assms(3) in \<open>auto simp: field_def vok_def\<close>)





lemma pagesize_heap_eq: "pagesize_heap =
  [Obj [(''title'', VStr ''T''), (''version'', VStr ''1'')], Arr [],
   Obj [(''$ref'', VStr ''#/components/parameters/PageSize'')],
   Arr [VRef 2],
   Obj [(''operationId'', VStr ''listItems''), (''parameters'', VRef 3)],
   Obj [(''get'', VRef 4)], Obj [(''/items'', VRef 5)],
   Obj [(''type'', VStr ''integer''), (''format'', VStr ''int32'')],
   Obj [(''in'', VStr ''query''), (''name'', VStr ''pageSize''),
        (''required'', VBool False), (''schema'', VRef 7)],
   Obj [(''PageSize'', VRef 8)], Obj [(''parameters'', VRef 9)], Arr [],
   Obj [(''openapi'', VStr ''3.0.0''), (''info'', VRef 0),
        (''servers'', VRef 1), (''paths'', VRef 6),
        (''components'', VRef 10), (''tags'', VRef 11)]]"
  by (simp add: pagesize_heap_def pagesize_doc_def)


lemma cyclic_heap_eq: "cyclic_heap =
  [Obj [(''title'', VStr ''T''), (''version'', VStr ''1'')], Arr [], Obj [],
   Obj [(''$ref'', VStr ''#/components/schemas/Node'')],
   Obj [(''next'', VRef 3)],
   Obj [(''type'', VStr ''object''), (''properties'', VRef 4)],
   Obj [(''Node'', VRef 5)], Obj [(''schemas'', VRef 6)], Arr [],
   Obj [(''openapi'', VStr ''3.0.0''), (''info'', VRef 0),
        (''servers'', VRef 1), (''paths'', VRef 2),
        (''components'', VRef 7), (''tags'', VRef 8)]]"
  by (simp add: cyclic_heap_def cyclic_doc_def)



section \<open>The frame of \<open>resolveRefs\<close>\<close>

lemma vok_mono: "vok n0 h v \<Longrightarrow> length h \<le> length h' \<Longrightarrow> vok n0 h' v"
  by (cases v) (auto simp: vok_def)

lemma cok_mono: "cok n0 h c \<Longrightarrow> length h \<le> length h' \<Longrightarrow> cok n0 h' c"
  by (cases c) (auto simp: cok_def list_all_iff intro: vok_mono)

lemma vok_prim [simp]: "vok n0 h VUndef" "vok n0 h VNull" "vok n0 h (VBool b)"
  "vok n0 h (VNum i)" "vok n0 h (VStr s)"
  by (simp_all add: vok_def)

lemma closed_append:
  assumes "closed n0 h" and "list_all (cok n0 (h @ cs)) cs"
  shows "closed n0 (h @ cs)"
proof -
  from assms(1) have n: "n0 \<le> length h" and c: "list_all (cok n0 h) (drop n0 h)"
    by (simp_all add: closed_def)
  from c have "list_all (cok n0 (h @ cs)) (drop n0 h)"
    by (auto simp: list_all_iff intro: cok_mono)
  with n assms(2) show ?thesis by (simp add: closed_def)
qed

lemma closed_update:
  assumes "closed n0 h" and "n0 \<le> a" and "a < length h" and "cok n0 h c"
  shows "closed n0 (h[a := c])"
proof -
  from assms(1) have n: "n0 \<le> length h" and cl: "list_all (cok n0 h) (drop n0 h)"
    by (simp_all add: closed_def)
  have "drop n0 (h[a := c]) = (drop n0 h)[a - n0 := c]"
    using assms(2) by (simp add: drop_update_swap)
  moreover have "list_all (cok n0 h) ((drop n0 h)[a - n0 := c])"
    using cl assms(4) by (auto simp: list_all_iff dest: set_update_subset_insert[THEN subsetD])
  ultimately have "list_all (cok n0 (h[a := c])) (drop n0 (h[a := c]))"
    by (auto simp: list_all_iff intro: cok_mono)
  with n show ?thesis by (simp add: closed_def)
qed

lemma cell_at_vok:
  assumes "closed n0 h" and "vok n0 h (VRef a)"
  shows "\<exists>c. cell_at h a = Some c \<and> cok n0 h c"
proof -
  from assms(2) have a: "n0 \<le> a" "a < length h" by (simp_all add: vok_def)
  with closed_cell[OF assms(1) a] show ?thesis by (simp add: cell_at_def)
qed

lemma map_of_vok:
  assumes "list_all (\<lambda>kv. vok n0 h (snd kv)) fs" and "map_of fs k = Some x"
  shows "vok n0 h x"
  using assms by (auto simp: list_all_iff dest!: map_of_SomeD)

lemma indexed_vok:
  assumes "list_all (vok n0 h) xs" and "map_of (indexed xs) k = Some x"
  shows "vok n0 h x"
proof -
  from assms(2) have "(k, x) \<in> set (zip (map show_nat [0..<length xs]) xs)"
    unfolding indexed_def by (rule map_of_SomeD)
  then have "x \<in> set xs" by (rule set_zip_rightD)
  with assms(1) show ?thesis by (simp add: list_all_iff)
qed

lemma getp_vok:
  assumes "closed n0 h" and "vok n0 h v" and "getp h v k = Ok x"
  shows "vok n0 h x"
proof (cases v)
  case (VRef a)
  from cell_at_vok[OF assms(1)] assms(2) VRef obtain c where c: "cell_at h a = Some c" "cok n0 h c"
    by blast
  show ?thesis
  proof (cases c)
    case (Obj fs)
    with assms(3) VRef c show ?thesis
      by (auto simp: getp_def cok_def split: option.splits if_splits intro: map_of_vok)
  next
    case (Arr xs)
    with assms(3) VRef c show ?thesis
      by (auto simp: getp_def cok_def split: option.splits if_splits intro: indexed_vok)
  qed
next
  case (VStr s)
  with assms(3) show ?thesis
    by (auto simp: getp_def indexed_def chars_of_def split: option.splits if_splits
        dest!: map_of_SomeD set_zip_rightD)
qed (use assms(3) in \<open>auto simp: getp_def split: if_splits\<close>)

lemma foldM_getp_vok:
  assumes "closed n0 h" and "vok n0 h v" and "foldM (getp h) v ks = Ok x"
  shows "vok n0 h x"
  using assms(2,3)
proof (induction ks arbitrary: v)
  case Nil
  then show ?case by simp
next
  case (Cons k ks)
  from Cons.prems(2) obtain y where y: "getp h v k = Ok y" and r: "foldM (getp h) y ks = Ok x"
    by (auto simp: rbind_Ok_iff)
  from getp_vok[OF assms(1) Cons.prems(1) y] have "vok n0 h y" .
  from Cons.IH[OF this r] show ?case .
qed

lemma goodD:
  assumes "good n0 root rec" and "closed n0 h" and "vok n0 h root" and "vok n0 h v"
    and "rec h v = Ok (r, h')"
  shows "closed n0 h'" and "vok n0 h' r" and "length h \<le> length h'" and "take n0 h' = take n0 h"
  using assms unfolding good_def by blast+

lemma extractParameterInfo_good:
  assumes "closed n0 h" and "vok n0 h t" and "vok n0 h nm"
    and "extractParameterInfo h t nm = Ok (r, h')"
  shows "closed n0 h' \<and> vok n0 h' r \<and> length h \<le> length h' \<and> take n0 h' = take n0 h"
proof (cases "(r, h') = (t, h)")
  case True
  with assms show ?thesis by simp
next
  case False
  with assms(4) have "\<exists>schema ty pname pin req fmt.
       field h t ''schema'' = Ok schema \<and> field h schema ''type'' = Ok ty \<and>
       field h t ''name'' = Ok pname \<and> field h t ''in'' = Ok pin \<and>
       field h t ''required'' = Ok req \<and> field h schema ''format'' = Ok fmt \<and>
       r = VRef (Suc (length h)) \<and>
       h' = h @ [Obj [(''name'', pname), (''type'', ty), (''location'', pin),
                       (''required'', VBool (truthy req)), (''format'', fmt)],
                  Obj [(''modelName'', nm), (''refType'', VStr ''parameter''),
                       (''isReference'', VBool (truthy nm)),
                       (''parameterDetails'', VRef (length h))]]"
    by (auto simp: extractParameterInfo_def rbind_Ok_iff split: if_splits)
  then obtain schema ty pname pin req fmt where
    f: "field h t ''schema'' = Ok schema" "field h schema ''type'' = Ok ty"
       "field h t ''name'' = Ok pname" "field h t ''in'' = Ok pin"
       "field h t ''required'' = Ok req" "field h schema ''format'' = Ok fmt"
    and r: "r = VRef (Suc (length h))"
    and h': "h' = h @ [Obj [(''name'', pname), (''type'', ty), (''location'', pin),
                       (''required'', VBool (truthy req)), (''format'', fmt)],
                  Obj [(''modelName'', nm), (''refType'', VStr ''parameter''),
                       (''isReference'', VBool (truthy nm)),
                       (''parameterDetails'', VRef (length h))]]"
    by blast
  note fv = field_vok[OF assms(1)]
  from fv[OF assms(2) f(1)] have s: "vok n0 h schema" .
  from assms(1) have n: "n0 \<le> length h" by (simp add: closed_def)
  have "list_all (cok n0 h') [Obj [(''name'', pname), (''type'', ty), (''location'', pin),
                       (''required'', VBool (truthy req)), (''format'', fmt)],
                  Obj [(''modelName'', nm), (''refType'', VStr ''parameter''),
                       (''isReference'', VBool (truthy nm)),
                       (''parameterDetails'', VRef (length h))]]"
    using fv[OF assms(2) f(3)] fv[OF assms(2) f(4)] fv[OF s f(2)] fv[OF s f(6)] assms(3) n
    by (auto simp: cok_def h' intro: vok_mono) (simp add: vok_def)
  from closed_append[OF assms(1) this[unfolded h']] have "closed n0 h'" by (simp add: h')
  moreover have "vok n0 h' r" using n by (simp add: r h' vok_def)
  moreover have "take n0 h' = take n0 h" using n by (simp add: h')
  ultimately show ?thesis by (simp add: h')
qed

lemma resolve_pointer_good:
  assumes "closed n0 h" and "vok n0 h root" and "resolve_pointer root h r = Ok (x, h')"
  shows "closed n0 h' \<and> vok n0 h' x \<and> length h \<le> length h' \<and> take n0 h' = take n0 h"
proof -
  from assms(3) obtain ref where ref: "r = VStr ref"
    by (cases r) (simp_all add: resolve_pointer_def)
  obtain nm ty where g: "getRefInfo ref = (nm, ty)" by (cases "getRefInfo ref")
  from assms(1) have n: "n0 \<le> length h" by (simp add: closed_def)
  show ?thesis
  proof (cases "ty = ''parameter''")
    case True
    with assms(3) ref g obtain t where
      t: "foldM (getp h) root (split_on (CHR ''/'') (remove_first ''#/'' ref)) = Ok t"
      and e: "extractParameterInfo h t (VStr nm) = Ok (x, h')"
      by (auto simp: resolve_pointer_def rbind_Ok_iff)
    from foldM_getp_vok[OF assms(1,2) t] have "vok n0 h t" .
    from extractParameterInfo_good[OF assms(1) this _ e] show ?thesis by simp
  next
    case False
    with assms(3) ref g have x: "x = VRef (length h)"
      and h': "h' = h @ [Obj [(''modelName'', VStr nm), (''refType'', VStr ty),
                             (''isReference'', VBool True)]]"
      by (auto simp: resolve_pointer_def)
    have "list_all (cok n0 h') [Obj [(''modelName'', VStr nm), (''refType'', VStr ty),
                             (''isReference'', VBool True)]]"
      by (simp add: cok_def)
    from closed_append[OF assms(1) this[unfolded h']] have "closed n0 h'" by (simp add: h')
    with n show ?thesis by (simp add: x h' vok_def)
  qed
qed

lemma map_items_good:
  assumes "good n0 root rec"
  shows "closed n0 h \<Longrightarrow> vok n0 h root \<Longrightarrow> list_all (vok n0 h) xs \<Longrightarrow>
         map_items rec xs h = Ok (rs, h') \<Longrightarrow>
         closed n0 h' \<and> list_all (vok n0 h') rs \<and> length h \<le> length h' \<and> take n0 h' = take n0 h"
proof (induction xs arbitrary: h rs h')
  case Nil
  then show ?case by simp
next
  case (Cons x xs)
  from Cons.prems(4) obtain r1 h1 rs2 h2 where
    1: "rec h x = Ok (r1, h1)" and 2: "map_items rec xs h1 = Ok (rs2, h2)"
    and e: "rs = r1 # rs2" "h' = h2"
    by (auto simp: rbind_Ok_iff)
  from Cons.prems(3) have vx: "vok n0 h x" and vxs: "list_all (vok n0 h) xs" by simp_all
  note g = goodD[OF assms Cons.prems(1,2) vx 1]
  from vxs g(3) have vxs1: "list_all (vok n0 h1) xs" by (auto simp: list_all_iff intro: vok_mono)
  from vok_mono[OF Cons.prems(2) g(3)] have vr1: "vok n0 h1 root" .
  from Cons.IH[OF g(1) vr1 vxs1 2]
  have i: "closed n0 h2" "list_all (vok n0 h2) rs2" "length h1 \<le> length h2" "take n0 h2 = take n0 h1"
    by simp_all
  from vok_mono[OF g(2) i(3)] i g e show ?case by simp
qed

lemma set_field_vok:
  assumes "list_all (\<lambda>kv. vok n0 h (snd kv)) fs" and "vok n0 h v"
  shows "list_all (\<lambda>kv. vok n0 h (snd kv)) (set_field k v fs)"
  using assms by (induction fs) auto

lemma assign_step_Ok:
  assumes "assign_step rec a h key = Ok h'"
  obtains fs child r h1 fs' where "cell_at h a = Some (Obj fs)" and "map_of fs key = Some child"
    and "rec h child = Ok (r, h1)" and "cell_at h1 a = Some (Obj fs')"
    and "h' = h1[a := Obj (set_field key r fs')]"
proof -
  from assms obtain fs where c: "cell_at h a = Some (Obj fs)"
    by (auto simp: assign_step_def split: option.splits cell.splits)
  with assms obtain child where ch: "map_of fs key = Some child"
    by (auto simp: assign_step_def split: option.splits)
  with assms c have "rbind (rec h child) (\<lambda>r.
               (case cell_at (snd r) a of
                  Some (Obj fs') \<Rightarrow> Ok ((snd r)[a := Obj (set_field key (fst r) fs')])
                | _ \<Rightarrow> Throw Unmodelled)) = Ok h'"
    by (simp add: assign_step_def)
  then obtain rr where 1: "rec h child = Ok rr"
    and 2: "(case cell_at (snd rr) a of
                  Some (Obj fs') \<Rightarrow> Ok ((snd rr)[a := Obj (set_field key (fst rr) fs')])
                | _ \<Rightarrow> Throw Unmodelled) = Ok h'"
    unfolding rbind_Ok_iff by blast
  from 2 obtain fs' where 3: "cell_at (snd rr) a = Some (Obj fs')"
    and 4: "h' = (snd rr)[a := Obj (set_field key (fst rr) fs')]"
    by (auto split: option.splits cell.splits)
  from 1 have "rec h child = Ok (fst rr, snd rr)" by simp
  from that[OF c ch this 3 4] show thesis .
qed

lemma assign_step_good:
  assumes "good n0 root rec" and "closed n0 h" and "vok n0 h root" and "vok n0 h (VRef a)"
    and "assign_step rec a h key = Ok h'"
  shows "closed n0 h' \<and> length h \<le> length h' \<and> take n0 h' = take n0 h"
proof -
  from assign_step_Ok[OF assms(5)] obtain fs child r h1 fs' where
    c: "cell_at h a = Some (Obj fs)" "map_of fs key = Some child"
    and 1: "rec h child = Ok (r, h1)"
    and c1: "cell_at h1 a = Some (Obj fs')"
    and h': "h' = h1[a := Obj (set_field key r fs')]"
    by blast
  from cell_at_vok[OF assms(2,4)] c(1) have "cok n0 h (Obj fs)" by simp
  with c(2) have vc: "vok n0 h child" by (auto simp: cok_def intro: map_of_vok)
  note g = goodD[OF assms(1,2,3) vc 1]
  from assms(4) g(3) have a: "n0 \<le> a" "a < length h1" by (simp_all add: vok_def)
  from closed_cell[OF g(1) a] c1 a have "cok n0 h1 (Obj fs')" by (simp add: cell_at_def)
  with g(2) have "cok n0 h1 (Obj (set_field key r fs'))"
    by (simp add: cok_def set_field_vok)
  from closed_update[OF g(1) a this] have "closed n0 h'" by (simp add: h')
  moreover have "take n0 h' = take n0 h" using g(4) a(1) by (simp add: h')
  ultimately show ?thesis using g(3) by (simp add: h')
qed

lemma foldM_assign_step_good:
  assumes "good n0 root rec"
  shows "closed n0 h \<Longrightarrow> vok n0 h root \<Longrightarrow> vok n0 h (VRef a) \<Longrightarrow>
         foldM (assign_step rec a) h ks = Ok h' \<Longrightarrow>
         closed n0 h' \<and> length h \<le> length h' \<and> take n0 h' = take n0 h"
proof (induction ks arbitrary: h)
  case Nil
  then show ?case by simp
next
  case (Cons k ks)
  from Cons.prems(4) obtain h1 where 1: "assign_step rec a h k = Ok h1"
    and 2: "foldM (assign_step rec a) h1 ks = Ok h'"
    by (auto simp: rbind_Ok_iff)
  from assign_step_good[OF assms Cons.prems(1,2,3) 1]
  have g: "closed n0 h1" "length h \<le> length h1" "take n0 h1 = take n0 h" by simp_all
  from Cons.IH[OF g(1) vok_mono[OF Cons.prems(2) g(2)] vok_mono[OF Cons.prems(3) g(2)] 2] g
  show ?case by simp
qed

lemma resolveRef_good: "good n0 root (resolveRef n root)"
proof (induction n)
  case 0
  show ?case
    unfolding good_def by (auto split: val.splits)
next
  case (Suc n)
  show ?case
    unfolding good_def
  proof (intro allI impI)
    fix h v r h'
    assume cl: "closed n0 h" and vr: "vok n0 h root" and vv: "vok n0 h v"
      and res: "resolveRef (Suc n) root h v = Ok (r, h')"
    show "closed n0 h' \<and> vok n0 h' r \<and> length h \<le> length h' \<and> take n0 h' = take n0 h"
    proof (cases v)
      case (VRef a)
      from cell_at_vok[OF cl] vv VRef obtain c where c: "cell_at h a = Some c" "cok n0 h c"
        by blast
      from cl have n: "n0 \<le> length h" by (simp add: closed_def)
      show ?thesis
      proof (cases c)
        case (Arr xs)
        with res VRef c obtain rs h1 where
          m: "map_items (resolveRef n root) xs h = Ok (rs, h1)"
          and e: "r = VRef (length h1)" "h' = h1 @ [Arr rs]"
          by (auto simp: rbind_Ok_iff)
        from c(2) Arr have "list_all (vok n0 h) xs" by (simp add: cok_def)
        from map_items_good[OF Suc cl vr this m]
        have g: "closed n0 h1" "list_all (vok n0 h1) rs" "length h \<le> length h1"
          "take n0 h1 = take n0 h" by simp_all
        from g(2) have "list_all (cok n0 (h1 @ [Arr rs])) [Arr rs]"
          by (auto simp: cok_def list_all_iff intro: vok_mono)
        from closed_append[OF g(1) this] have "closed n0 h'" by (simp add: e)
        moreover from g(1) have "n0 \<le> length h1" by (simp add: closed_def)
        ultimately show ?thesis using g e by (simp add: vok_def)
      next
        case (Obj fs)
        from res VRef c Obj obtain rf where rf: "field h v ''$ref'' = Ok rf"
          and rest: "(if truthy rf then resolve_pointer root h rf
               else rbind (param_shaped h v) (\<lambda>shaped.
                 if shaped then extractParameterInfo h v VNull
                 else rbind (foldM (assign_step (resolveRef n root) a) h (map fst fs))
                     (\<lambda>h'. Ok (v, h')))) = Ok (r, h')"
          by (auto simp: rbind_Ok_iff)
        show ?thesis
        proof (cases "truthy rf")
          case True
          with rest have "resolve_pointer root h rf = Ok (r, h')" by simp
          from resolve_pointer_good[OF cl vr this] show ?thesis .
        next
          case False
          with rest obtain shaped where sh: "param_shaped h v = Ok shaped"
            and rest2: "(if shaped then extractParameterInfo h v VNull
                 else rbind (foldM (assign_step (resolveRef n root) a) h (map fst fs))
                     (\<lambda>h'. Ok (v, h'))) = Ok (r, h')"
            by (auto simp: rbind_Ok_iff)
          show ?thesis
          proof (cases shaped)
            case True
            with rest2 have "extractParameterInfo h v VNull = Ok (r, h')" by simp
            from extractParameterInfo_good[OF cl vv _ this] show ?thesis by simp
          next
            case False
            with rest2 have f: "foldM (assign_step (resolveRef n root) a) h (map fst fs) = Ok h'"
              and r: "r = v" by (auto simp: rbind_Ok_iff)
            from foldM_assign_step_good[OF Suc cl vr _ f] vv VRef
            have g: "closed n0 h'" "length h \<le> length h'" "take n0 h' = take n0 h" by simp_all
            with vok_mono[OF vv g(2)] r show ?thesis by simp
          qed
        qed
      qed
    qed (use res cl vv in \<open>auto\<close>)
  qed
qed

lemma alloc_closed:
  "alloc t h = (v, h') \<Longrightarrow> closed n0 h \<Longrightarrow>
     closed n0 h' \<and> vok n0 h' v \<and> (\<exists>ext. h' = h @ ext)"
  "alloc_list ts h = (vs, h') \<Longrightarrow> closed n0 h \<Longrightarrow>
     closed n0 h' \<and> list_all (vok n0 h') vs \<and> (\<exists>ext. h' = h @ ext)"
  "alloc_fields kts h = (fs, h') \<Longrightarrow> closed n0 h \<Longrightarrow>
     closed n0 h' \<and> list_all (\<lambda>kv. vok n0 h' (snd kv)) fs \<and> (\<exists>ext. h' = h @ ext)"
proof (induction t h and ts h and kts h arbitrary: v h' and vs h' and fs h'
    rule: alloc_alloc_list_alloc_fields.induct)
  case (6 xs h)
  obtain vs h1 where a: "alloc_list xs h = (vs, h1)" by (cases "alloc_list xs h")
  from "6.IH"[OF a "6.prems"(2)] obtain ext where
    i: "closed n0 h1" "list_all (vok n0 h1) vs" "h1 = h @ ext" by blast
  from "6.prems"(1) a have e: "v = VRef (length h1)" "h' = h1 @ [Arr vs]" by simp_all
  from i(2) have "list_all (cok n0 (h1 @ [Arr vs])) [Arr vs]"
    by (auto simp: cok_def list_all_iff intro: vok_mono)
  from closed_append[OF i(1) this] have "closed n0 h'" by (simp add: e)
  moreover from i(1) have "n0 \<le> length h1" by (simp add: closed_def)
  ultimately show ?case using i(3) by (simp add: e vok_def)
next
  case (7 kvs h)
  obtain fs h1 where a: "alloc_fields kvs h = (fs, h1)" by (cases "alloc_fields kvs h")
  from "7.IH"[OF a "7.prems"(2)] obtain ext where
    i: "closed n0 h1" "list_all (\<lambda>kv. vok n0 h1 (snd kv)) fs" "h1 = h @ ext" by blast
  from "7.prems"(1) a have e: "v = VRef (length h1)" "h' = h1 @ [Obj fs]" by simp_all
  from i(2) have "list_all (cok n0 (h1 @ [Obj fs])) [Obj fs]"
    by (auto simp: cok_def list_all_iff intro: vok_mono)
  from closed_append[OF i(1) this] have "closed n0 h'" by (simp add: e)
  moreover from i(1) have "n0 \<le> length h1" by (simp add: closed_def)
  ultimately show ?case using i(3) by (simp add: e vok_def)
next
  case (9 x xs h)
  obtain v1 h1 where a: "alloc x h = (v1, h1)" by (cases "alloc x h")
  obtain vs2 h2 where b: "alloc_list xs h1 = (vs2, h2)" by (cases "alloc_list xs h1")
  from "9.IH"(1)[OF a "9.prems"(2)] obtain ext1 where
    i: "closed n0 h1" "vok n0 h1 v1" "h1 = h @ ext1" by blast
  from "9.IH"(2)[OF a[symmetric] b i(1)] obtain ext2 where
    j: "closed n0 h2" "list_all (vok n0 h2) vs2" "h2 = h1 @ ext2" by blast
  from "9.prems"(1) a b have e: "vs = v1 # vs2" "h' = h2" by simp_all
  from i(2) j(3) have "vok n0 h2 v1" by (auto intro: vok_mono)
  with j i(3) show ?case by (simp add: e)
next
  case (11 kx kvs h)
  obtain v1 h1 where a: "alloc (snd kx) h = (v1, h1)" by (cases "alloc (snd kx) h")
  obtain fs2 h2 where b: "alloc_fields kvs h1 = (fs2, h2)" by (cases "alloc_fields kvs h1")
  from "11.IH"(1)[OF a "11.prems"(2)] obtain ext1 where
    i: "closed n0 h1" "vok n0 h1 v1" "h1 = h @ ext1" by blast
  from "11.IH"(2)[OF a[symmetric] b i(1)] obtain ext2 where
    j: "closed n0 h2" "list_all (\<lambda>kv. vok n0 h2 (snd kv)) fs2" "h2 = h1 @ ext2" by blast
  from "11.prems"(1) a b have e: "fs = (fst kx, v1) # fs2" "h' = h2" by simp_all
  from i(2) j(3) have "vok n0 h2 v1" by (auto intro: vok_mono)
  with j i(3) show ?case by (simp add: e)
qed auto

lemma mapM_cong_Ok:
  assumes "\<And>x y. x \<in> set xs \<Longrightarrow> f x = Ok y \<Longrightarrow> g x = Ok y"
  shows "mapM f xs = Ok ys \<Longrightarrow> mapM g xs = Ok ys"
  using assms
proof (induction xs arbitrary: ys)
  case Nil
  then show ?case by simp
next
  case (Cons x xs)
  from Cons.prems(1) obtain y ys' where 1: "f x = Ok y" and 2: "mapM f xs = Ok ys'"
    and e: "ys = y # ys'" by (auto simp: rbind_Ok_iff)
  from Cons.prems(2)[OF _ 1] have "g x = Ok y" by simp
  moreover from Cons.IH[OF 2] Cons.prems(2) have "mapM g xs = Ok ys'" by simp
  ultimately show ?case by (simp add: e)
qed

lemma readback_append:
  "readback n h v = Ok t \<Longrightarrow> readback n (h @ ext) v = Ok t"
proof (induction n arbitrary: v t)
  case 0
  then show ?case by (cases v) auto
next
  case (Suc n)
  show ?case
  proof (cases v)
    case (VRef a)
    with Suc.prems obtain c where c: "cell_at h a = Some c"
      by (auto split: option.splits)
    then have c': "cell_at (h @ ext) a = Some c"
      by (auto simp: cell_at_def nth_append split: if_splits)
    show ?thesis
    proof (cases c)
      case (Obj fs)
      with Suc.prems VRef c obtain ts where
        m: "mapM (readback n h) (map snd fs) = Ok ts"
        and t: "t = JObj (filter (\<lambda>kt. snd kt \<noteq> JUndef) (zip (map fst fs) ts))"
        by (auto simp: rbind_Ok_iff)
      from mapM_cong_Ok[OF _ m, of "readback n (h @ ext)"] Suc.IH
      have "mapM (readback n (h @ ext)) (map snd fs) = Ok ts" by blast
      with VRef c' Obj t show ?thesis by simp
    next
      case (Arr xs)
      with Suc.prems VRef c obtain ts where
        m: "mapM (readback n h) xs = Ok ts"
        and t: "t = JArr (map (\<lambda>t. if t = JUndef then JNull else t) ts)"
        by (auto simp: rbind_Ok_iff)
      from mapM_cong_Ok[OF _ m, of "readback n (h @ ext)"] Suc.IH
      have "mapM (readback n (h @ ext)) xs = Ok ts" by blast
      with VRef c' Arr t show ?thesis by simp
    qed
  qed (use Suc.prems in auto)
qed

text \<open>
  C7.  Whatever \<open>resolveRefs\<close> returns, every object that existed before the call is as
  it was, so the document the caller passed reads back as the same tree; the returned
  document consists of objects created by the call only.
\<close>

theorem resolveRefs_leaves_argument:
  assumes "resolveRefs fuel h doc = Ok (r, h')"
  shows "take (length h) h' = h \<and>
         readback (length h) h' doc = readback (length h) h doc \<and>
         closed (length h) h' \<and> vok (length h) h' r"
proof -
  from assms obtain t where t: "readback (length h) h doc = Ok t"
    and res: "resolveRef fuel (fst (alloc t h)) (snd (alloc t h)) (fst (alloc t h)) = Ok (r, h')"
    by (auto simp: resolveRefs_def clone_def rbind_Ok_iff split: if_splits)
  obtain root h1 where a: "alloc t h = (root, h1)" by (cases "alloc t h")
  have "closed (length h) h" by (simp add: closed_def)
  from alloc_closed(1)[OF a this] obtain ext where
    i: "closed (length h) h1" "vok (length h) h1 root" "h1 = h @ ext" by blast
  from res a have res': "resolveRef fuel root h1 root = Ok (r, h')" by simp
  from goodD[OF resolveRef_good i(1,2,2) res']
  have g: "closed (length h) h'" "vok (length h) h' r" "length h1 \<le> length h'"
    "take (length h) h' = take (length h) h1" .
  from g(4) i(3) have 1: "take (length h) h' = h" by simp
  then have "h' = h @ drop (length h) h'" by (metis append_take_drop_id)
  with readback_append[OF t, of "drop (length h) h'"] t
  have "readback (length h) h' doc = readback (length h) h doc" by simp
  with 1 g show ?thesis by simp
qed

lemma resolveRefs_pagesize_Ok:
  "(case resolveRefs 6 pagesize_heap (VRef 12) of Ok x \<Rightarrow> True | _ \<Rightarrow> False)"
  by code_simp

lemma readback_pagesize: "readback 13 pagesize_heap (VRef 12) = Ok pagesize_doc"
  by code_simp

theorem resolveRefs_leaves_argument_witness:
  "\<exists>r h'. resolveRefs 6 pagesize_heap (VRef 12) = Ok (r, h') \<and>
      take 13 h' = pagesize_heap \<and> readback 13 h' (VRef 12) = Ok pagesize_doc"
proof -
  from resolveRefs_pagesize_Ok obtain r h' where
    res: "resolveRefs 6 pagesize_heap (VRef 12) = Ok (r, h')"
    by (cases "resolveRefs 6 pagesize_heap (VRef 12)") auto
  have l: "length pagesize_heap = 13" by (simp add: pagesize_heap_eq)
  from resolveRefs_leaves_argument[OF res] res show ?thesis
    unfolding l readback_pagesize by blast
qed

section \<open>What resolution leaves unresolved, and pointer cycles\<close>












text \<open>
  Against C8: the pointers of \<open>cyclic_doc\<close> form a cycle (the schema \<open>Node\<close> refers to
  itself) and the parameter of \<open>self_param_doc\<close> refers to itself; for both \<open>parse\<close> returns an
  IR, with fuel equal to the nesting depth of the document.
\<close>

theorem cyclic_documents_are_parsed:
  "is_ok (parse_doc 6 cyclic_doc) \<and> is_ok (resolveRefs 6 cyclic_heap (VRef 9)) \<and>
   is_ok (parse_doc 5 self_param_doc)"
  by code_simp

lemma field_not_OutOfFuel [simp]: "field h v k \<noteq> OutOfFuel"
  by (auto simp: field_def split: val.splits option.splits cell.splits)

lemma getp_not_OutOfFuel [simp]: "getp h v k \<noteq> OutOfFuel"
  by (auto simp: getp_def split: val.splits option.splits cell.splits)

lemma rbind_OutOfFuel_iff:
  "rbind r f = OutOfFuel \<longleftrightarrow> r = OutOfFuel \<or> (\<exists>x. r = Ok x \<and> f x = OutOfFuel)"
  by (cases r) auto

lemma foldM_getp_not_OutOfFuel [simp]: "foldM (getp h) v ks \<noteq> OutOfFuel"
  by (induction ks arbitrary: v) (auto simp: rbind_OutOfFuel_iff)

lemma param_shaped_not_OutOfFuel [simp]: "param_shaped h v \<noteq> OutOfFuel"
  unfolding param_shaped_def by (auto simp: rbind_OutOfFuel_iff)

lemma extractParameterInfo_not_OutOfFuel [simp]: "extractParameterInfo h v nm \<noteq> OutOfFuel"
  unfolding extractParameterInfo_def by (auto simp: rbind_OutOfFuel_iff)

lemma resolve_pointer_not_OutOfFuel [simp]: "resolve_pointer root h r \<noteq> OutOfFuel"
  unfolding resolve_pointer_def
  by (auto simp: rbind_OutOfFuel_iff split: val.splits prod.splits)

text \<open>
  Resolution never follows a pointer recursively.  For an object with a truthy \<open>$ref\<close>
  the result is computed without a recursive call (one unit of fuel is enough, whatever
  the pointer leads to): a handle, a parameter descriptor, the node the pointer leads to,
  or a \<open>TypeError\<close>.
\<close>

lemma pointer_costs_no_recursion:
  assumes "cell_at h a = Some (Obj fs)" and "map_of fs ''$ref'' = Some r" and "truthy r"
  shows "resolveRef (Suc n) root h (VRef a) \<noteq> OutOfFuel \<and>
         resolveRef (Suc n) root h (VRef a) = resolveRef (Suc 0) root h (VRef a)"
  using resolveRef_pointer[OF assms] by simp

lemma pointer_costs_no_recursion_witness:
  "resolveRef 1 (VRef 9) cyclic_heap (VRef 3) \<noteq> OutOfFuel \<and>
   resolveRef 7 (VRef 9) cyclic_heap (VRef 3) = resolveRef 1 (VRef 9) cyclic_heap (VRef 3)"
proof -
  have c: "cell_at cyclic_heap 3 = Some (Obj [(''$ref'', VStr ''#/components/schemas/Node'')])"
    by (simp add: cyclic_heap_eq cell_at_def)
  from pointer_costs_no_recursion[OF c, of "VStr ''#/components/schemas/Node''" 0 "VRef 9"]
    pointer_costs_no_recursion[OF c, of "VStr ''#/components/schemas/Node''" 6 "VRef 9"]
  show ?thesis by (simp add: eval_nat_numeral del: resolveRef.simps)
qed

section \<open>Resolution terminates\<close>

lemma rep_bounds:
  "rep lo hi h v t \<Longrightarrow> lo \<le> hi"
  "reps lo hi h vs ts \<Longrightarrow> lo \<le> hi"
  "repf lo hi h fs kts \<Longrightarrow> lo \<le> hi"
proof (induction t and ts and kts arbitrary: lo hi v and lo hi vs and lo hi fs
    rule: depth_depths_depthf.induct)
  case (1 xs)
  from "1.prems" show ?case by auto
next
  case (2 fs')
  from "2.prems" show ?case by auto
next
  case (9 x xs)
  from "9.prems" obtain v vs' mid where
    e: "vs = v # vs'" "lo \<le> mid" "mid \<le> hi" by auto
  then show ?case by simp
next
  case (11 kx fs')
  from "11.prems" obtain v fs'' mid where
    e: "lo \<le> mid" "mid \<le> hi" by auto
  then show ?case by simp
qed auto

lemma rep_frame:
  "rep lo hi h v t \<Longrightarrow> (\<And>a. lo \<le> a \<Longrightarrow> a < hi \<Longrightarrow> cell_at h' a = cell_at h a) \<Longrightarrow>
     rep lo hi h' v t"
  "reps lo hi h vs ts \<Longrightarrow> (\<And>a. lo \<le> a \<Longrightarrow> a < hi \<Longrightarrow> cell_at h' a = cell_at h a) \<Longrightarrow>
     reps lo hi h' vs ts"
  "repf lo hi h fs kts \<Longrightarrow> (\<And>a. lo \<le> a \<Longrightarrow> a < hi \<Longrightarrow> cell_at h' a = cell_at h a) \<Longrightarrow>
     repf lo hi h' fs kts"
proof (induction t and ts and kts arbitrary: lo hi v and lo hi vs and lo hi fs
    rule: depth_depths_depthf.induct)
  case (1 ts)
  from "1.prems"(1) obtain m vs where
    e: "hi = Suc m" "lo \<le> m" "v = VRef m" "cell_at h m = Some (Arr vs)" "reps lo m h vs ts"
    by auto
  from "1.IH"[OF e(5)] "1.prems"(2) e(1) have "reps lo m h' vs ts" by simp
  moreover from "1.prems"(2)[of m] e have "cell_at h' m = Some (Arr vs)" by simp
  ultimately show ?case using e by auto
next
  case (2 kts)
  from "2.prems"(1) obtain m fs where
    e: "hi = Suc m" "lo \<le> m" "v = VRef m" "cell_at h m = Some (Obj fs)" "repf lo m h fs kts"
    by auto
  from "2.IH"[OF e(5)] "2.prems"(2) e(1) have "repf lo m h' fs kts" by simp
  moreover from "2.prems"(2)[of m] e have "cell_at h' m = Some (Obj fs)" by simp
  ultimately show ?case using e by auto
next
  case (9 t ts)
  from "9.prems"(1) obtain v vs' mid where
    e: "vs = v # vs'" "lo \<le> mid" "mid \<le> hi" "rep lo mid h v t" "reps mid hi h vs' ts" by auto
  from "9.IH"(1)[OF e(4)] "9.prems"(2) e(3) have "rep lo mid h' v t" by simp
  moreover from "9.IH"(2)[OF e(5)] "9.prems"(2) e(2) have "reps mid hi h' vs' ts" by simp
  ultimately show ?case using e by auto
next
  case (11 kt kts)
  from "11.prems"(1) obtain v fs' mid where
    e: "fs = (fst kt, v) # fs'" "lo \<le> mid" "mid \<le> hi" "rep lo mid h v (snd kt)"
      "repf mid hi h fs' kts" by auto
  from "11.IH"(1)[OF e(4)] "11.prems"(2) e(3) have "rep lo mid h' v (snd kt)" by simp
  moreover from "11.IH"(2)[OF e(5)] "11.prems"(2) e(2) have "repf mid hi h' fs' kts" by simp
  ultimately show ?case using e by auto
qed auto

lemma same_outside_refl [simp]: "same_outside lo hi h h"
  by (simp add: same_outside_def)

lemma same_outside_append [simp]: "same_outside lo hi h (h @ ext)"
  by (simp add: same_outside_def nth_append)

lemma same_outside_widen:
  "same_outside lo hi h h' \<Longrightarrow> lo' \<le> lo \<Longrightarrow> hi \<le> hi' \<Longrightarrow> same_outside lo' hi' h h'"
  by (auto simp: same_outside_def)

lemma same_outside_trans:
  "same_outside lo hi h h1 \<Longrightarrow> same_outside lo hi h1 h2 \<Longrightarrow> same_outside lo hi h h2"
  by (auto simp: same_outside_def)

lemma same_outside_cell:
  assumes "same_outside lo hi h h'" and "a < lo \<or> hi \<le> a" and "a < length h"
  shows "cell_at h' a = cell_at h a"
  using assms by (auto simp: same_outside_def cell_at_def)

lemma rep_in_store:
  "rep lo hi h v t \<Longrightarrow> hi \<le> length h \<or> hi = lo"
  "reps lo hi h vs ts \<Longrightarrow> hi \<le> length h \<or> hi = lo"
  "repf lo hi h fs kts \<Longrightarrow> hi \<le> length h \<or> hi = lo"
proof (induction t and ts and kts arbitrary: lo hi v and lo hi vs and lo hi fs
    rule: depth_depths_depthf.induct)
  case (9 x xs)
  from "9.prems" obtain v vs' mid where
    e: "lo \<le> mid" "mid \<le> hi" "rep lo mid h v x" "reps mid hi h vs' xs" by auto
  from "9.IH"(1)[OF e(3)] "9.IH"(2)[OF e(4)] e show ?case by auto
next
  case (11 kx fs')
  from "11.prems" obtain v fs'' mid where
    e: "lo \<le> mid" "mid \<le> hi" "rep lo mid h v (snd kx)" "repf mid hi h fs'' fs'" by auto
  from "11.IH"(1)[OF e(3)] "11.IH"(2)[OF e(4)] e show ?case by auto
qed (auto simp: cell_at_def split: if_splits)

lemma extractParameterInfo_appends:
  assumes "extractParameterInfo h t nm = Ok (r, h')"
  shows "\<exists>ext. h' = h @ ext"
proof (cases "(r, h') = (t, h)")
  case True
  then show ?thesis by simp
next
  case False
  with assms show ?thesis
    by (auto simp: extractParameterInfo_def rbind_Ok_iff split: if_splits)
qed

lemma resolve_pointer_appends:
  assumes "resolve_pointer root h r = Ok (x, h')"
  shows "\<exists>ext. h' = h @ ext"
proof -
  from assms obtain ref where ref: "r = VStr ref"
    by (cases r) (simp_all add: resolve_pointer_def)
  obtain nm ty where g: "getRefInfo ref = (nm, ty)" by (cases "getRefInfo ref")
  show ?thesis
  proof (cases "ty = ''parameter''")
    case True
    with assms ref g obtain t where "extractParameterInfo h t (VStr nm) = Ok (x, h')"
      by (auto simp: resolve_pointer_def rbind_Ok_iff)
    then show ?thesis by (rule extractParameterInfo_appends)
  next
    case False
    with assms ref g show ?thesis by (auto simp: resolve_pointer_def)
  qed
qed

lemma walksD:
  assumes "walks n root" and "rep lo hi h v t" and "distinct_keys t" and "depth t \<le> n"
  shows "resolveRef n root h v \<noteq> OutOfFuel"
    and "resolveRef n root h v = Ok (r, h') \<Longrightarrow> same_outside lo hi h h'"
  using assms unfolding walks_def by blast+

lemma map_items_walks:
  assumes "walks n root"
  shows "reps lo hi h vs ts \<Longrightarrow> distinct_keys_list ts \<Longrightarrow> depths ts \<le> n \<Longrightarrow>
     map_items (resolveRef n root) vs h \<noteq> OutOfFuel \<and>
     (\<forall>rs h'. map_items (resolveRef n root) vs h = Ok (rs, h') \<longrightarrow> same_outside lo hi h h')"
proof (induction ts arbitrary: lo h vs)
  case Nil
  then show ?case by simp
next
  case (Cons t ts)
  from Cons.prems(1) obtain v vs' mid where
    e: "vs = v # vs'" "lo \<le> mid" "mid \<le> hi" "rep lo mid h v t" "reps mid hi h vs' ts" by auto
  from Cons.prems(2,3) have d: "distinct_keys t" "distinct_keys_list ts" "depth t \<le> n" "depths ts \<le> n"
    by simp_all
  note w = walksD[OF assms e(4) d(1,3)]
  show ?case
  proof (cases "resolveRef n root h v")
    case (Ok x)
    obtain r1 h1 where x: "x = (r1, h1)" by (cases x)
    from w(2)[of r1 h1] Ok x have so: "same_outside lo mid h h1" by simp
    have "reps mid hi h1 vs' ts"
    proof (rule rep_frame(2)[OF e(5)])
      fix a assume a: "mid \<le> a" "a < hi"
      from rep_in_store(2)[OF e(5)] a have "a < length h" by auto
      from same_outside_cell[OF so _ this] a show "cell_at h1 a = cell_at h a" by simp
    qed
    from Cons.IH[OF this d(2,4)]
    have i: "map_items (resolveRef n root) vs' h1 \<noteq> OutOfFuel"
      "\<And>rs h'. map_items (resolveRef n root) vs' h1 = Ok (rs, h') \<Longrightarrow> same_outside mid hi h1 h'"
      by blast+
    have 1: "map_items (resolveRef n root) vs h \<noteq> OutOfFuel"
      using Ok x i(1) by (simp add: e(1) rbind_OutOfFuel_iff)
    have 2: "same_outside lo hi h h'" if "map_items (resolveRef n root) vs h = Ok (rs, h')" for rs h'
    proof -
      from that Ok x obtain rs2 where "map_items (resolveRef n root) vs' h1 = Ok (rs2, h')"
        by (auto simp: e(1) rbind_Ok_iff)
      from i(2)[OF this] have "same_outside mid hi h1 h'" .
      from same_outside_trans[OF same_outside_widen[OF so le_refl e(3)]
          same_outside_widen[OF this e(2) le_refl]]
      show ?thesis .
    qed
    from 1 2 show ?thesis by blast
  next
    case (Throw err)
    then show ?thesis by (simp add: e(1))
  next
    case OutOfFuel
    with w(1) show ?thesis by simp
  qed
qed

lemma map_of_set_field: "k' \<noteq> k \<Longrightarrow> map_of (set_field k v fs) k' = map_of fs k'"
  by (induction fs) auto

lemma cell_at_update:
  "cell_at (h[m := c]) a = (if a = m \<and> m < length h then Some c else cell_at h a)"
  by (auto simp: cell_at_def)

lemma same_outside_update: "same_outside m (Suc m) h (h[m := c])"
  by (auto simp: same_outside_def)

lemma assign_loop_walks:
  assumes "walks n root"
  shows "repf lo hi h fs kts \<Longrightarrow> distinct_keys_fields kts \<Longrightarrow> depthf kts \<le> n \<Longrightarrow>
     hi \<le> m \<Longrightarrow> cell_at h m = Some (Obj cur) \<Longrightarrow> distinct (map fst fs) \<Longrightarrow>
     (\<And>k v. (k, v) \<in> set fs \<Longrightarrow> map_of cur k = Some v) \<Longrightarrow>
     foldM (assign_step (resolveRef n root) m) h (map fst fs) \<noteq> OutOfFuel \<and>
     (\<forall>h'. foldM (assign_step (resolveRef n root) m) h (map fst fs) = Ok h' \<longrightarrow>
        same_outside lo (Suc m) h h')"
proof (induction kts arbitrary: lo h fs cur)
  case Nil
  then show ?case by simp
next
  case (Cons kt kts)
  from Cons.prems(1) obtain v fs' mid where
    e: "fs = (fst kt, v) # fs'" "lo \<le> mid" "mid \<le> hi" "rep lo mid h v (snd kt)"
      "repf mid hi h fs' kts" by auto
  from Cons.prems(2,3) have d: "distinct_keys (snd kt)" "distinct_keys_fields kts"
    "depth (snd kt) \<le> n" "depthf kts \<le> n" by simp_all
  from Cons.prems(5) have m: "m < length h" by (auto simp: cell_at_def split: if_splits)
  from Cons.prems(7)[of "fst kt" v] e(1) have look: "map_of cur (fst kt) = Some v" by simp
  note w = walksD[OF assms e(4) d(1,3)]
  show ?case
  proof (cases "resolveRef n root h v")
    case (Ok x)
    obtain r1 h1 where x: "x = (r1, h1)" by (cases x)
    from w(2)[of r1 h1] Ok x have so: "same_outside lo mid h h1" by simp
    from same_outside_cell[OF so _ m] e(3) Cons.prems(4,5)
    have c1: "cell_at h1 m = Some (Obj cur)" by simp
    define h2 where "h2 = h1[m := Obj (set_field (fst kt) r1 cur)]"
    have step: "assign_step (resolveRef n root) m h (fst kt) = Ok h2"
      using Cons.prems(5) look Ok x c1 by (simp add: assign_step_def h2_def)
    from so have len1: "length h \<le> length h1" by (simp add: same_outside_def)
    have so2: "same_outside lo (Suc m) h h2"
    proof -
      from e(3) Cons.prems(4) have "mid \<le> Suc m" by simp
      from same_outside_widen[OF so le_refl this] have a: "same_outside lo (Suc m) h h1" .
      from rep_bounds(1)[OF e(4)] e(3) Cons.prems(4) have "lo \<le> m" by simp
      from same_outside_widen[OF same_outside_update this le_refl]
      have "same_outside lo (Suc m) h1 h2" unfolding h2_def .
      from same_outside_trans[OF a this] show ?thesis .
    qed
    have r2: "repf mid hi h2 fs' kts"
    proof (rule rep_frame(3)[OF e(5)])
      fix a assume a: "mid \<le> a" "a < hi"
      from rep_in_store(3)[OF e(5)] a have al: "a < length h" by auto
      from a Cons.prems(4) have "a \<noteq> m" by simp
      then have "cell_at h2 a = cell_at h1 a" by (simp add: h2_def cell_at_update)
      also from same_outside_cell[OF so _ al] a have "\<dots> = cell_at h a" by simp
      finally show "cell_at h2 a = cell_at h a" .
    qed
    from m len1 have c2: "cell_at h2 m = Some (Obj (set_field (fst kt) r1 cur))"
      by (simp add: h2_def cell_at_update)
    from Cons.prems(6) e(1) have dist: "distinct (map fst fs')" "fst kt \<notin> fst ` set fs'" by simp_all
    have look2: "map_of (set_field (fst kt) r1 cur) k = Some v'" if "(k, v') \<in> set fs'" for k v'
    proof -
      from that dist(2) have "k \<noteq> fst kt" by force
      moreover from Cons.prems(7)[of k v'] that e(1) have "map_of cur k = Some v'" by simp
      ultimately show ?thesis by (simp add: map_of_set_field)
    qed
    from Cons.IH[OF r2 d(2,4) Cons.prems(4) c2 dist(1) look2]
    have i: "foldM (assign_step (resolveRef n root) m) h2 (map fst fs') \<noteq> OutOfFuel"
      "\<And>h'. foldM (assign_step (resolveRef n root) m) h2 (map fst fs') = Ok h' \<Longrightarrow>
         same_outside mid (Suc m) h2 h'"
      by blast+
    have 1: "foldM (assign_step (resolveRef n root) m) h (map fst fs) \<noteq> OutOfFuel"
      using step i(1) by (simp add: e(1))
    have 2: "same_outside lo (Suc m) h h'"
      if "foldM (assign_step (resolveRef n root) m) h (map fst fs) = Ok h'" for h'
    proof -
      from that step have "foldM (assign_step (resolveRef n root) m) h2 (map fst fs') = Ok h'"
        by (simp add: e(1))
      from same_outside_widen[OF i(2)[OF this] e(2) le_refl] same_outside_trans[OF so2]
      show ?thesis by blast
    qed
    from 1 2 show ?thesis by blast
  next
    case (Throw err)
    then have "assign_step (resolveRef n root) m h (fst kt) = Throw err"
      using Cons.prems(5) look by (simp add: assign_step_def)
    then show ?thesis by (simp add: e(1))
  next
    case OutOfFuel
    with w(1) show ?thesis by simp
  qed
qed

lemma repf_keys: "repf lo hi h fs kts \<Longrightarrow> map fst fs = map fst kts"
  by (induction kts arbitrary: lo fs) auto

lemma rep_primitive:
  assumes "rep lo hi h v t" and "depth t = 0"
  shows "\<forall>a. v \<noteq> VRef a"
  using assms by (cases t) auto

lemma resolveRef_primitive:
  assumes "\<forall>a. v \<noteq> VRef a"
  shows "resolveRef n root h v = Ok (v, h)"
  using assms by (cases n; cases v) auto

lemma walks_all: "walks n root"
proof (induction n)
  case 0
  show ?case
    unfolding walks_def
  proof (intro allI impI)
    fix t lo hi h v
    assume r: "rep lo hi h v t" and "depth t \<le> 0"
    then have "\<forall>a. v \<noteq> VRef a" by (intro rep_primitive[OF r]) simp
    from resolveRef_primitive[OF this, of 0 root h]
    show "resolveRef 0 root h v \<noteq> OutOfFuel \<and>
          (\<forall>r h'. resolveRef 0 root h v = Ok (r, h') \<longrightarrow> same_outside lo hi h h')"
      by auto
  qed
next
  case (Suc n)
  show ?case
    unfolding walks_def
  proof (intro allI impI)
    fix t lo hi h v
    assume r: "rep lo hi h v t" and dk: "distinct_keys t" and dp: "depth t \<le> Suc n"
    show "resolveRef (Suc n) root h v \<noteq> OutOfFuel \<and>
          (\<forall>r h'. resolveRef (Suc n) root h v = Ok (r, h') \<longrightarrow> same_outside lo hi h h')"
    proof (cases "depth t = 0")
      case True
      from resolveRef_primitive[OF rep_primitive[OF r True], of "Suc n" root h]
      show ?thesis by auto
    next
      case False
      then consider ts where "t = JArr ts" | kts where "t = JObj kts" by (cases t) auto
      then show ?thesis
      proof cases
        case 1
        with r obtain m vs where
          e: "hi = Suc m" "lo \<le> m" "v = VRef m" "cell_at h m = Some (Arr vs)" "reps lo m h vs ts"
          by auto
        from dk dp 1 have d: "distinct_keys_list ts" "depths ts \<le> n" by simp_all
        from map_items_walks[OF Suc e(5) d]
        have i: "map_items (resolveRef n root) vs h \<noteq> OutOfFuel"
          "\<And>rs h'. map_items (resolveRef n root) vs h = Ok (rs, h') \<Longrightarrow> same_outside lo m h h'"
          by blast+
        have eq: "resolveRef (Suc n) root h v =
            rbind (map_items (resolveRef n root) vs h)
                 (\<lambda>rs. Ok (VRef (length (snd rs)), snd rs @ [Arr (fst rs)]))"
          using e by simp
        have 1: "resolveRef (Suc n) root h v \<noteq> OutOfFuel"
          unfolding eq using i(1) by (simp add: rbind_OutOfFuel_iff)
        have 2: "same_outside lo hi h h'" if "resolveRef (Suc n) root h v = Ok (x, h')" for x h'
        proof -
          from that[unfolded eq] obtain rs h1 where m1: "map_items (resolveRef n root) vs h = Ok (rs, h1)"
            and h': "h' = h1 @ [Arr rs]"
            by (auto simp: rbind_Ok_iff)
          from same_outside_trans[OF same_outside_widen[OF i(2)[OF m1] le_refl, of hi]]
          show ?thesis using e(1) by (simp add: h')
        qed
        from 1 2 show ?thesis by blast
      next
        case 2
        with r obtain m fs where
          e: "hi = Suc m" "lo \<le> m" "v = VRef m" "cell_at h m = Some (Obj fs)" "repf lo m h fs kts"
          by auto
        from dk dp 2 have d: "distinct (map fst kts)" "distinct_keys_fields kts" "depthf kts \<le> n"
          by simp_all
        from repf_keys[OF e(5)] d(1) have dist: "distinct (map fst fs)" by simp
        obtain rf where rf: "field h v ''$ref'' = Ok rf"
          using e by (cases "map_of fs ''$ref''") (auto simp: field_def)
        have eq: "resolveRef (Suc n) root h v =
               (if truthy rf then resolve_pointer root h rf
                else rbind (param_shaped h (VRef m)) (\<lambda>shaped.
                  if shaped then extractParameterInfo h (VRef m) VNull
                  else rbind (foldM (assign_step (resolveRef n root) m) h (map fst fs))
                      (\<lambda>h'. Ok (VRef m, h'))))"
          using e rf by simp
        from assign_loop_walks[OF Suc e(5) d(2,3) le_refl e(4) dist] dist
        have i: "foldM (assign_step (resolveRef n root) m) h (map fst fs) \<noteq> OutOfFuel"
          "\<And>h'. foldM (assign_step (resolveRef n root) m) h (map fst fs) = Ok h' \<Longrightarrow>
             same_outside lo (Suc m) h h'"
          by (auto simp: map_of_is_SomeI)
        have 1: "resolveRef (Suc n) root h v \<noteq> OutOfFuel"
          unfolding eq using i(1) by (auto simp: rbind_OutOfFuel_iff)
        have 2: "same_outside lo hi h h'" if res: "resolveRef (Suc n) root h v = Ok (x, h')" for x h'
        proof (cases "truthy rf")
          case True
          with res[unfolded eq] have "resolve_pointer root h rf = Ok (x, h')" by simp
          from resolve_pointer_appends[OF this] show ?thesis by auto
        next
          case False
          with res[unfolded eq] have "rbind (param_shaped h (VRef m)) (\<lambda>shaped.
                  if shaped then extractParameterInfo h (VRef m) VNull
                  else rbind (foldM (assign_step (resolveRef n root) m) h (map fst fs))
                      (\<lambda>h'. Ok (VRef m, h'))) = Ok (x, h')" by simp
          then obtain shaped where sh: "param_shaped h (VRef m) = Ok shaped"
            and rest: "(if shaped then extractParameterInfo h (VRef m) VNull
                  else rbind (foldM (assign_step (resolveRef n root) m) h (map fst fs))
                      (\<lambda>h'. Ok (VRef m, h'))) = Ok (x, h')"
            unfolding rbind_Ok_iff by blast
          show ?thesis
          proof (cases shaped)
            case True
            with rest have "extractParameterInfo h (VRef m) VNull = Ok (x, h')" by simp
            from extractParameterInfo_appends[OF this] show ?thesis by auto
          next
            case False
            with rest have "foldM (assign_step (resolveRef n root) m) h (map fst fs) = Ok h'"
              by (auto simp: rbind_Ok_iff)
            from i(2)[OF this] show ?thesis by (simp add: e(1))
          qed
        qed
        from 1 2 show ?thesis by blast
      qed
    qed
  qed
qed

lemma alloc_rep:
  "alloc t h = (v, h') \<Longrightarrow> rep (length h) (length h') h' v t \<and> (\<exists>ext. h' = h @ ext)"
  "alloc_list ts h = (vs, h') \<Longrightarrow> reps (length h) (length h') h' vs ts \<and> (\<exists>ext. h' = h @ ext)"
  "alloc_fields kts h = (fs, h') \<Longrightarrow> repf (length h) (length h') h' fs kts \<and> (\<exists>ext. h' = h @ ext)"
proof (induction t h and ts h and kts h arbitrary: v h' and vs h' and fs h'
    rule: alloc_alloc_list_alloc_fields.induct)
  case (6 xs h)
  obtain vs h1 where a: "alloc_list xs h = (vs, h1)" by (cases "alloc_list xs h")
  from "6.IH"[OF a] obtain ext where i: "reps (length h) (length h1) h1 vs xs" "h1 = h @ ext"
    by blast
  from "6.prems" a have e: "v = VRef (length h1)" "h' = h1 @ [Arr vs]" by simp_all
  have "reps (length h) (length h1) h' vs xs"
    by (rule rep_frame(2)[OF i(1)]) (simp add: e cell_at_def nth_append)
  moreover have "cell_at h' (length h1) = Some (Arr vs)" by (simp add: e cell_at_def)
  moreover from i(2) have "length h \<le> length h1" by simp
  ultimately show ?case using i(2) by (auto simp: e)
next
  case (7 kvs h)
  obtain fs h1 where a: "alloc_fields kvs h = (fs, h1)" by (cases "alloc_fields kvs h")
  from "7.IH"[OF a] obtain ext where i: "repf (length h) (length h1) h1 fs kvs" "h1 = h @ ext"
    by blast
  from "7.prems" a have e: "v = VRef (length h1)" "h' = h1 @ [Obj fs]" by simp_all
  have "repf (length h) (length h1) h' fs kvs"
    by (rule rep_frame(3)[OF i(1)]) (simp add: e cell_at_def nth_append)
  moreover have "cell_at h' (length h1) = Some (Obj fs)" by (simp add: e cell_at_def)
  moreover from i(2) have "length h \<le> length h1" by simp
  ultimately show ?case using i(2) by (auto simp: e)
next
  case (9 x xs h)
  obtain v1 h1 where a: "alloc x h = (v1, h1)" by (cases "alloc x h")
  obtain vs2 h2 where b: "alloc_list xs h1 = (vs2, h2)" by (cases "alloc_list xs h1")
  from "9.IH"(1)[OF a] obtain ext1 where i: "rep (length h) (length h1) h1 v1 x" "h1 = h @ ext1"
    by blast
  from "9.IH"(2)[OF a[symmetric] b] obtain ext2 where
    j: "reps (length h1) (length h2) h2 vs2 xs" "h2 = h1 @ ext2" by blast
  from "9.prems" a b have e: "vs = v1 # vs2" "h' = h2" by simp_all
  have rp: "rep (length h) (length h1) h2 v1 x"
    by (rule rep_frame(1)[OF i(1)]) (simp add: j(2) cell_at_def nth_append)
  from i(2) j(2) have len: "length h \<le> length h1" "length h1 \<le> length h2" by simp_all
  have "reps (length h) (length h2) h2 (v1 # vs2) (x # xs)"
    unfolding reps.simps using len rp j(1) by blast
  with i(2) j(2) show ?case by (simp add: e)
next
  case (11 kx kvs h)
  obtain v1 h1 where a: "alloc (snd kx) h = (v1, h1)" by (cases "alloc (snd kx) h")
  obtain fs2 h2 where b: "alloc_fields kvs h1 = (fs2, h2)" by (cases "alloc_fields kvs h1")
  from "11.IH"(1)[OF a] obtain ext1 where
    i: "rep (length h) (length h1) h1 v1 (snd kx)" "h1 = h @ ext1" by blast
  from "11.IH"(2)[OF a[symmetric] b] obtain ext2 where
    j: "repf (length h1) (length h2) h2 fs2 kvs" "h2 = h1 @ ext2" by blast
  from "11.prems" a b have e: "fs = (fst kx, v1) # fs2" "h' = h2" by simp_all
  have rp: "rep (length h) (length h1) h2 v1 (snd kx)"
    by (rule rep_frame(1)[OF i(1)]) (simp add: j(2) cell_at_def nth_append)
  from i(2) j(2) have len: "length h \<le> length h1" "length h1 \<le> length h2" by simp_all
  have "repf (length h) (length h2) h2 ((fst kx, v1) # fs2) (kx # kvs)"
    unfolding repf.simps using len rp j(1) by blast
  with i(2) j(2) show ?case by (simp add: e)
qed auto

lemma mapM_not_OutOfFuel:
  assumes "\<And>x. f x \<noteq> OutOfFuel"
  shows "mapM f xs \<noteq> OutOfFuel"
  using assms by (induction xs) (auto simp: rbind_OutOfFuel_iff)

lemma readback_not_OutOfFuel: "readback n h v \<noteq> OutOfFuel"
proof (induction n arbitrary: v)
  case 0
  show ?case by (cases v) auto
next
  case (Suc n)
  from mapM_not_OutOfFuel[of "readback n h", OF Suc]
  show ?case
    by (cases v) (auto simp: rbind_OutOfFuel_iff split: option.splits cell.splits)
qed

lemma resolveRefs_total:
  assumes "\<And>t. readback (length h) h doc = Ok t \<Longrightarrow> distinct_keys t \<and> depth t \<le> fuel"
  shows "resolveRefs fuel h doc \<noteq> OutOfFuel"
proof (cases "readback (length h) h doc")
  case (Ok t)
  show ?thesis
  proof (cases "t = JUndef")
    case True
    with Ok show ?thesis by (simp add: resolveRefs_def clone_def)
  next
    case False
    obtain root h1 where a: "alloc t h = (root, h1)" by (cases "alloc t h")
    from alloc_rep(1)[OF a] have r: "rep (length h) (length h1) h1 root t" by simp
    from assms[OF Ok] have "distinct_keys t" "depth t \<le> fuel" by simp_all
    from walksD(1)[OF walks_all r this] have "resolveRef fuel root h1 root \<noteq> OutOfFuel" .
    with Ok False a show ?thesis by (simp add: resolveRefs_def clone_def)
  qed
next
  case (Throw e)
  then show ?thesis by (simp add: resolveRefs_def clone_def)
next
  case OutOfFuel
  with readback_not_OutOfFuel show ?thesis by simp
qed

text \<open>More fuel does not change a result.\<close>

lemma map_items_extends:
  assumes "extends f g"
  shows "map_items f xs h \<noteq> OutOfFuel \<Longrightarrow> map_items g xs h = map_items f xs h"
proof (induction xs arbitrary: h)
  case Nil
  then show ?case by simp
next
  case (Cons x xs)
  from Cons.prems have 1: "f h x \<noteq> OutOfFuel" by (auto simp: rbind_OutOfFuel_iff)
  with assms have g: "g h x = f h x" by (simp add: extends_def)
  show ?case
  proof (cases "f h x")
    case (Ok r)
    with Cons.prems have "map_items f xs (snd r) \<noteq> OutOfFuel"
      by (auto simp: rbind_OutOfFuel_iff)
    from Cons.IH[OF this] g Ok show ?thesis by simp
  qed (use g 1 in auto)
qed

lemma assign_step_extends:
  assumes "extends f g" and "assign_step f a h k \<noteq> OutOfFuel"
  shows "assign_step g a h k = assign_step f a h k"
proof (cases "cell_at h a")
  case None
  then show ?thesis by (simp add: assign_step_def)
next
  case (Some c)
  show ?thesis
  proof (cases c)
    case (Arr xs)
    with Some show ?thesis by (simp add: assign_step_def)
  next
    case (Obj fs)
    show ?thesis
    proof (cases "map_of fs k")
      case None
      with Some Obj show ?thesis by (simp add: assign_step_def)
    next
      case (Some child)
      with \<open>cell_at h a = Some c\<close> Obj assms(2) have "f h child \<noteq> OutOfFuel"
        by (auto simp: assign_step_def rbind_OutOfFuel_iff)
      with assms(1) have "g h child = f h child" by (simp add: extends_def)
      with Some \<open>cell_at h a = Some c\<close> Obj show ?thesis by (simp add: assign_step_def)
    qed
  qed
qed

lemma foldM_assign_extends:
  assumes "extends f g"
  shows "foldM (assign_step f a) h ks \<noteq> OutOfFuel \<Longrightarrow>
         foldM (assign_step g a) h ks = foldM (assign_step f a) h ks"
proof (induction ks arbitrary: h)
  case Nil
  then show ?case by simp
next
  case (Cons k ks)
  from Cons.prems have 1: "assign_step f a h k \<noteq> OutOfFuel" by (auto simp: rbind_OutOfFuel_iff)
  note g = assign_step_extends[OF assms 1]
  show ?case
  proof (cases "assign_step f a h k")
    case (Ok h1)
    with Cons.prems have "foldM (assign_step f a) h1 ks \<noteq> OutOfFuel" by simp
    from Cons.IH[OF this] g Ok show ?thesis by simp
  qed (use g 1 in auto)
qed

lemma resolveRef_Suc_Arr:
  assumes "cell_at h a = Some (Arr xs)"
  shows "resolveRef (Suc n) root h (VRef a) =
     rbind (map_items (resolveRef n root) xs h)
       (\<lambda>rs. Ok (VRef (length (snd rs)), snd rs @ [Arr (fst rs)]))"
  using assms by simp

lemma resolveRef_Suc_Obj:
  assumes "cell_at h a = Some (Obj fs)" and "field h (VRef a) ''$ref'' = Ok rf"
  shows "resolveRef (Suc n) root h (VRef a) =
     (if truthy rf then resolve_pointer root h rf
      else rbind (param_shaped h (VRef a)) (\<lambda>shaped.
        if shaped then extractParameterInfo h (VRef a) VNull
        else rbind (foldM (assign_step (resolveRef n root) a) h (map fst fs))
               (\<lambda>h'. Ok (VRef a, h'))))"
  using assms by simp

lemma resolveRef_extends: "extends (resolveRef n root) (resolveRef (Suc n) root)"
proof (induction n)
  case 0
  show ?case unfolding extends_def
  proof (intro allI impI)
    fix h v assume "resolveRef 0 root h v \<noteq> OutOfFuel"
    then show "resolveRef (Suc 0) root h v = resolveRef 0 root h v" by (cases v) auto
  qed
next
  case (Suc n)
  show ?case unfolding extends_def
  proof (intro allI impI)
    fix h v assume nf: "resolveRef (Suc n) root h v \<noteq> OutOfFuel"
    show "resolveRef (Suc (Suc n)) root h v = resolveRef (Suc n) root h v"
    proof (cases v)
      case (VRef a)
      show ?thesis
      proof (cases "cell_at h a")
        case None
        with VRef show ?thesis by simp
      next
        case (Some c)
        show ?thesis
        proof (cases c)
          case (Arr xs)
          with Some have c: "cell_at h a = Some (Arr xs)" by simp
          from nf have "map_items (resolveRef n root) xs h \<noteq> OutOfFuel"
            unfolding VRef resolveRef_Suc_Arr[OF c] by (auto simp: rbind_OutOfFuel_iff)
          from map_items_extends[OF Suc this]
          have me: "map_items (resolveRef (Suc n) root) xs h = map_items (resolveRef n root) xs h" .
          show ?thesis unfolding VRef resolveRef_Suc_Arr[OF c] me by (rule refl)
        next
          case (Obj fs)
          with Some have c: "cell_at h a = Some (Obj fs)" by simp
          obtain rf where rf: "field h (VRef a) ''$ref'' = Ok rf"
            using c by (cases "map_of fs ''$ref''") (auto simp: field_def)
          note eq = resolveRef_Suc_Obj[OF c rf]
          show ?thesis
          proof (cases "truthy rf")
            case True
            then show ?thesis unfolding VRef eq by simp
          next
            case False
            show ?thesis
            proof (cases "param_shaped h (VRef a)")
              case (Ok shaped)
              show ?thesis
              proof (cases shaped)
                case True
                with Ok False show ?thesis unfolding VRef eq by simp
              next
                case nsh: False
                from nf have "foldM (assign_step (resolveRef n root) a) h (map fst fs) \<noteq> OutOfFuel"
                  unfolding VRef eq using False Ok nsh by (auto simp: rbind_OutOfFuel_iff)
                from foldM_assign_extends[OF Suc this]
                have fe: "foldM (assign_step (resolveRef (Suc n) root) a) h (map fst fs) =
                          foldM (assign_step (resolveRef n root) a) h (map fst fs)" .
                show ?thesis unfolding VRef eq fe by (rule refl)
              qed
            next
              case (Throw e)
              with False show ?thesis unfolding VRef eq by simp
            next
              case OutOfFuel
              with False show ?thesis unfolding VRef eq by simp
            qed
          qed
        qed
      qed
    qed auto
  qed
qed

lemma resolveRef_more_fuel:
  "resolveRef n root h v \<noteq> OutOfFuel \<Longrightarrow> resolveRef (n + k) root h v = resolveRef n root h v"
proof (induction k)
  case 0
  then show ?case by simp
next
  case (Suc k)
  from Suc have 1: "resolveRef (n + k) root h v = resolveRef n root h v" by simp
  with Suc.prems have "resolveRef (n + k) root h v \<noteq> OutOfFuel" by simp
  with resolveRef_extends[of "n + k" root] have "resolveRef (Suc (n + k)) root h v = resolveRef (n + k) root h v"
    by (simp add: extends_def)
  with 1 show ?case by simp
qed

lemma resolveRefs_more_fuel:
  assumes "resolveRefs n h doc \<noteq> OutOfFuel"
  shows "resolveRefs (n + k) h doc = resolveRefs n h doc"
proof (cases "clone h doc")
  case (Ok c)
  with assms have "resolveRef n (fst c) (snd c) (fst c) \<noteq> OutOfFuel" by (simp add: resolveRefs_def)
  from resolveRef_more_fuel[OF this] Ok show ?thesis by (simp add: resolveRefs_def)
qed (simp_all add: resolveRefs_def)

lemma readback_cyclic: "readback 10 cyclic_heap (VRef 9) = Ok cyclic_doc"
  by code_simp

text \<open>
  C8, amended.  Reference resolution returns for every document, whether its pointers
  form a cycle or not.  When the document (as \<open>JSON.stringify\<close> reads it) is a tree of depth
  at most \<open>fuel\<close> whose objects have distinct keys, \<open>resolveRefs\<close> with that fuel ends with a
  result or an exception, never by exhausting the fuel, and any larger fuel gives the
  same outcome: the recursion follows the nesting of the document only, never a pointer.
\<close>

theorem resolution_terminates:
  assumes "readback (length h) h doc = Ok t" and "distinct_keys t" and "depth t \<le> fuel"
  shows "resolveRefs fuel h doc \<noteq> OutOfFuel \<and>
         resolveRefs (fuel + k) h doc = resolveRefs fuel h doc"
proof -
  have "resolveRefs fuel h doc \<noteq> OutOfFuel"
    by (rule resolveRefs_total) (use assms in auto)
  with resolveRefs_more_fuel[OF this] show ?thesis by simp
qed

theorem resolution_terminates_witness:
  "resolveRefs 6 cyclic_heap (VRef 9) \<noteq> OutOfFuel \<and>
   resolveRefs (6 + 100) cyclic_heap (VRef 9) = resolveRefs 6 cyclic_heap (VRef 9)"
proof -
  have l: "length cyclic_heap = 10" by (simp add: cyclic_heap_eq)
  have d: "distinct_keys cyclic_doc" "depth cyclic_doc \<le> 6"
    by (simp_all add: cyclic_doc_def)
  from resolution_terminates[OF readback_cyclic[folded l] d] show ?thesis .
qed

end
